theory Spec2Isabelle
  imports Main "HOL-Library.Word"
begin

unbundle bit_operations_syntax

section \<open>Common types\<close>

text \<open>
  \<^verbatim>\<open>number\<close> is the repository's unsigned 64-bit integer (the tests write its literals
  as \<^verbatim>\<open>5uLL\<close> and use \<^verbatim>\<open>sizeof(number)\<close> as the word size); \<^verbatim>\<open>bytes\<close> is
  \<^verbatim>\<open>vector<uchar>\<close>.  Arithmetic on \<^typ>\<open>64 word\<close> wraps around as the C++ does.
\<close>

type_synonym number = "64 word"
type_synonym bytes = "8 word list"

text \<open>Every \<^verbatim>\<open>throw Exception(...)\<close> of the storage adapters, by its message.\<close>

datatype exn =
    DataSizeMismatch nat number  \<comment> \<open>"data size (%1%) does not match block size (%2%)"\<close>
  | NotMalloced number           \<comment> \<open>"attempt to access memory that was not malloced (%1%)"\<close>
  | CannotOpen                   \<comment> \<open>"cannot open %1%: %2%"\<close>
  | UndefinedRemainder           \<comment> \<open>no exception: \<^verbatim>\<open>location % blockSize\<close> with a zero block size\<close>

definition returns :: "exn + 'a \<Rightarrow> bool" where
  "returns r = (case r of Inl _ \<Rightarrow> False | Inr _ \<Rightarrow> True)"

definition throws :: "exn + 'a \<Rightarrow> bool" where
  "throws r = (case r of Inl _ \<Rightarrow> True | Inr _ \<Rightarrow> False)"

text \<open>\<^verbatim>\<open>vector::resize(n)\<close>: cut to \<open>n\<close> elements or pad with zero bytes.\<close>

definition resize :: "nat \<Rightarrow> bytes \<Rightarrow> bytes" where
  "resize n xs = take n xs @ replicate (n - length xs) 0"

text \<open>
  Modelled from the spec: \<^verbatim>\<open>bytesFromNumber\<close> lives in utility.cpp, which is not among
  the sources.  The spec fixes only that a number is stored in \<^verbatim>\<open>sizeof(number)\<close> bytes in
  one byte order; least significant byte first is used here.  No theorem below depends
  on the order.
\<close>

definition bytesFromNumber :: "number \<Rightarrow> bytes" where
  "bytesFromNumber n = map (\<lambda>i. ucast (drop_bit (8 * i) n)) [0..<8]"

section \<open>The in-memory storage adapter (storage-adapter.cpp, lines 31-87)\<close>

text \<open>
  The object state: the block size of the base class, the \<^verbatim>\<open>memory\<close> map and the
  \<^verbatim>\<open>locationCounter\<close>.  The class constants \<^verbatim>\<open>EMPTY\<close> and \<^verbatim>\<open>META\<close> and the initial value of
  \<^verbatim>\<open>locationCounter\<close> are declared in storage-adapter.hpp, which is not among the sources;
  they are parameters of the constructor here and are kept in the state.
\<close>

record InMemory =
  im_blockSize :: number
  im_EMPTY :: number
  im_META :: number
  im_memory :: "number \<rightharpoonup> bytes"
  im_locationCounter :: number

definition im_checkLocation :: "InMemory \<Rightarrow> number \<Rightarrow> exn + unit" where
  "im_checkLocation s location =
     (if location \<ge> im_locationCounter s then Inl (NotMalloced location) else Inr ())"

text \<open>
  \<^verbatim>\<open>memory[location]\<close> is \<^verbatim>\<open>operator[]\<close>: it creates an empty entry where none exists.
  \<^verbatim>\<open>get\<close> inserts the stored bytes at the beginning of \<^verbatim>\<open>response\<close>.
\<close>

definition im_get :: "InMemory \<Rightarrow> number \<Rightarrow> bytes \<Rightarrow> exn + (bytes \<times> InMemory)" where
  "im_get s location response =
     (case im_checkLocation s location of
        Inl e \<Rightarrow> Inl e
      | Inr _ \<Rightarrow>
          (case im_memory s location of
             None \<Rightarrow> Inr (response, s\<lparr>im_memory := (im_memory s)(location \<mapsto> [])\<rparr>)
           | Some block \<Rightarrow> Inr (block @ response, s)))"

definition im_set :: "InMemory \<Rightarrow> number \<Rightarrow> bytes \<Rightarrow> exn + InMemory" where
  "im_set s location data =
     (if length data \<noteq> unat (im_blockSize s)
      then Inl (DataSizeMismatch (length data) (im_blockSize s))
      else case im_checkLocation s location of
             Inl e \<Rightarrow> Inl e
           | Inr _ \<Rightarrow> Inr (s\<lparr>im_memory := (im_memory s)(location \<mapsto> data)\<rparr>))"

text \<open>\<^verbatim>\<open>return locationCounter++;\<close>: the old counter is returned.\<close>

definition im_malloc :: "InMemory \<Rightarrow> number \<times> InMemory" where
  "im_malloc s = (im_locationCounter s, s\<lparr>im_locationCounter := im_locationCounter s + 1\<rparr>)"

definition im_empty :: "InMemory \<Rightarrow> number" where
  "im_empty s = im_EMPTY s"

definition im_meta :: "InMemory \<Rightarrow> number" where
  "im_meta s = im_META s"

definition InMemoryStorageAdapter :: "number \<Rightarrow> number \<Rightarrow> number \<Rightarrow> number \<Rightarrow> exn + InMemory" where
  "InMemoryStorageAdapter EMPTY META counter0 blockSize =
     (let s = \<lparr>im_blockSize = blockSize, im_EMPTY = EMPTY, im_META = META,
                im_memory = Map.empty, im_locationCounter = counter0\<rparr>;
          emptyBlock = resize (unat blockSize) (bytesFromNumber (im_empty s))
      in im_set s (im_meta s) emptyBlock)"

section \<open>The file-backed storage adapter (storage-adapter.cpp, lines 89-171)\<close>

text \<open>
  The adapter owns a \<^verbatim>\<open>std::fstream\<close> opened for reading and writing.  The model keeps
  what the adapter can observe of it: the bytes of the file and the stream's \<^verbatim>\<open>failbit\<close>.
  A \<^verbatim>\<open>read\<close> that meets the end of the file before \<^verbatim>\<open>blockSize\<close> bytes sets
  \<^verbatim>\<open>failbit\<close>, and while \<^verbatim>\<open>failbit\<close> is set \<^verbatim>\<open>seekg\<close>, \<^verbatim>\<open>read\<close>, \<^verbatim>\<open>seekp\<close> and \<^verbatim>\<open>write\<close>
  do nothing; the adapter never tests or clears the stream state.  The read and the
  write position are set by a seek before every transfer, so they are not part of the
  state.  A write beyond the end of the file leaves zero bytes in the gap.
\<close>

definition stream_write :: "bytes \<Rightarrow> nat \<Rightarrow> bytes \<Rightarrow> bytes" where
  "stream_write file pos data =
     take pos (file @ replicate (pos - length file) 0) @ data @ drop (pos + length data) file"

text \<open>
  \<^verbatim>\<open>seekg(pos); read(buffer, n)\<close> on a stream in its good state: the bytes the file has
  from \<open>pos\<close> on, at most \<open>n\<close>, overwrite the beginning of the buffer; the result also
  says whether all \<open>n\<close> were there.
\<close>

definition stream_read :: "bytes \<Rightarrow> nat \<Rightarrow> nat \<Rightarrow> bytes \<Rightarrow> bytes \<times> bool" where
  "stream_read file pos n buffer =
     (let got = take n (drop pos file)
      in (got @ drop (length got) buffer, length got = n))"

record FileSystem =
  fs_blockSize :: number
  fs_EMPTY :: number
  fs_file :: bytes
  fs_fail :: bool
  fs_locationCounter :: number

text \<open>
  \<^verbatim>\<open>location > locationCounter || location % blockSize != 0\<close>: the remainder is only
  evaluated when the first test is false; with a zero block size it is undefined.
\<close>

definition fs_checkLocation :: "FileSystem \<Rightarrow> number \<Rightarrow> exn + unit" where
  "fs_checkLocation s location =
     (if location > fs_locationCounter s then Inl (NotMalloced location)
      else if fs_blockSize s = 0 then Inl UndefinedRemainder
      else if location mod fs_blockSize s \<noteq> 0 then Inl (NotMalloced location)
      else Inr ())"

text \<open>
  \<^verbatim>\<open>uchar placeholder[blockSize]\<close> is not initialised: \<open>uninit\<close> gives the bytes it happens
  to hold.  They reach the caller where the read does not overwrite them.
\<close>

definition fs_get :: "FileSystem \<Rightarrow> number \<Rightarrow> bytes \<Rightarrow> (nat \<Rightarrow> 8 word) \<Rightarrow> exn + (bytes \<times> FileSystem)" where
  "fs_get s location response uninit =
     (case fs_checkLocation s location of
        Inl e \<Rightarrow> Inl e
      | Inr _ \<Rightarrow>
          (let n = unat (fs_blockSize s);
               placeholder = map uninit [0..<n]
           in if fs_fail s then Inr (placeholder @ response, s)
              else (case stream_read (fs_file s) (unat location) n placeholder of
                      (placeholder', complete) \<Rightarrow>
                        Inr (placeholder' @ response, s\<lparr>fs_fail := \<not> complete\<rparr>))))"

definition fs_set :: "FileSystem \<Rightarrow> number \<Rightarrow> bytes \<Rightarrow> exn + FileSystem" where
  "fs_set s location data =
     (if length data \<noteq> unat (fs_blockSize s)
      then Inl (DataSizeMismatch (length data) (fs_blockSize s))
      else case fs_checkLocation s location of
             Inl e \<Rightarrow> Inl e
           | Inr _ \<Rightarrow>
               (if fs_fail s then Inr s
                else Inr (s\<lparr>fs_file := stream_write (fs_file s) (unat location) data\<rparr>)))"

text \<open>\<^verbatim>\<open>return locationCounter += blockSize;\<close>: the new counter is returned.\<close>

definition fs_malloc :: "FileSystem \<Rightarrow> number \<times> FileSystem" where
  "fs_malloc s =
     (fs_locationCounter s + fs_blockSize s,
      s\<lparr>fs_locationCounter := fs_locationCounter s + fs_blockSize s\<rparr>)"

definition fs_empty :: "FileSystem \<Rightarrow> number" where
  "fs_empty s = fs_EMPTY s"

definition fs_meta :: "FileSystem \<Rightarrow> number" where
  "fs_meta s = fs_blockSize s"

text \<open>
  The constructor.  \<open>existing\<close> is the content of the file named \<^verbatim>\<open>filename\<close>, if there is
  one: opening with \<^verbatim>\<open>in | out\<close> fails on a missing file, \<^verbatim>\<open>trunc\<close> creates or empties
  it.  \<^verbatim>\<open>ate\<close> puts the position at the end, which \<^verbatim>\<open>tellg\<close> then reports.  \<^verbatim>\<open>EMPTY\<close> is
  declared in storage-adapter.hpp (not among the sources) and is a parameter.
\<close>

definition FileSystemStorageAdapter :: "number \<Rightarrow> number \<Rightarrow> bytes option \<Rightarrow> bool \<Rightarrow> exn + FileSystem" where
  "FileSystemStorageAdapter EMPTY blockSize existing override =
     (if override
      then (let s = \<lparr>fs_blockSize = blockSize, fs_EMPTY = EMPTY, fs_file = [], fs_fail = False,
                      fs_locationCounter = 2 * blockSize\<rparr>;
                emptyBlock = resize (unat blockSize) (bytesFromNumber (fs_empty s))
            in fs_set s (fs_meta s) emptyBlock)
      else (case existing of
              None \<Rightarrow> Inl CannotOpen
            | Some file \<Rightarrow>
                Inr \<lparr>fs_blockSize = blockSize, fs_EMPTY = EMPTY, fs_file = file, fs_fail = False,
                     fs_locationCounter = of_nat (length file)\<rparr>))"

text \<open>
  A sequence of calls on one adapter.  A call that throws leaves the adapter as it
  was (every check precedes the first effect).  \<open>fs_run\<close> collects what the calls to
  \<^verbatim>\<open>malloc\<close> return, in order.
\<close>

datatype fs_call = Malloc | Get number bytes "nat \<Rightarrow> 8 word" | Set number bytes

fun fs_step :: "fs_call \<Rightarrow> FileSystem \<Rightarrow> number list \<times> FileSystem" where
  "fs_step Malloc s = (case fs_malloc s of (a, s') \<Rightarrow> ([a], s'))"
| "fs_step (Get location response uninit) s =
     (case fs_get s location response uninit of Inl _ \<Rightarrow> ([], s) | Inr (_, s') \<Rightarrow> ([], s'))"
| "fs_step (Set location data) s =
     (case fs_set s location data of Inl _ \<Rightarrow> ([], s) | Inr s' \<Rightarrow> ([], s'))"

fun fs_run :: "fs_call list \<Rightarrow> FileSystem \<Rightarrow> number list \<times> FileSystem" where
  "fs_run [] s = ([], s)"
| "fs_run (c # cs) s =
     (case fs_step c s of (as, s') \<Rightarrow> (case fs_run cs s' of (bs, s'') \<Rightarrow> (as @ bs, s'')))"

fun count_malloc :: "fs_call list \<Rightarrow> nat" where
  "count_malloc [] = 0"
| "count_malloc (Malloc # cs) = Suc (count_malloc cs)"
| "count_malloc (_ # cs) = count_malloc cs"

subsection \<open>Concrete adapters\<close>

text \<open>
  The file-backed adapter of the tests, \<^verbatim>\<open>FileSystemStorageAdapter(32, name, true)\<close>, right
  after construction (with \<^verbatim>\<open>EMPTY = 0\<close>): the file holds the unused first block and the
  meta block, the cursor is at 64.  \<open>failed32\<close> is that adapter after \<^verbatim>\<open>malloc()\<close> and a
  \<^verbatim>\<open>get\<close> of the block just allocated, which the file does not hold yet.
\<close>

definition fresh32 :: FileSystem where
  "fresh32 = \<lparr>fs_blockSize = 32, fs_EMPTY = 0, fs_file = replicate 64 0, fs_fail = False,
              fs_locationCounter = 64\<rparr>"

definition failed32 :: FileSystem where
  "failed32 = \<lparr>fs_blockSize = 32, fs_EMPTY = 0, fs_file = replicate 64 0, fs_fail = True,
               fs_locationCounter = 96\<rparr>"

text \<open>An in-memory adapter with block size 32 whose meta block is address 1 and whose
  counter stands at 2.\<close>

definition memory32 :: InMemory where
  "memory32 = \<lparr>im_blockSize = 32, im_EMPTY = 0, im_META = 1,
               im_memory = [1 \<mapsto> replicate 32 0], im_locationCounter = 2\<rparr>"

section \<open>Path ORAM (oram.cpp)\<close>

subsection \<open>The integer types of oram.cpp\<close>

text \<open>
  \<^verbatim>\<open>ulong\<close> values are natural numbers below \<open>2^64\<close>; the results of \<^verbatim>\<open>ulong\<close> arithmetic
  are reduced modulo \<open>2^64\<close> (\<open>wrap\<close>, \<open>ulong_minus\<close>).  Two expressions of oram.cpp leave
  \<^verbatim>\<open>ulong\<close>: the literal \<^verbatim>\<open>1\<close> in \<^verbatim>\<open>1 << (height - 1)\<close> is an \<^verbatim>\<open>int\<close>, and \<^verbatim>\<open>writePath\<close> keeps
  block ids in a \<^verbatim>\<open>vector<int>\<close>.  \<open>to_int\<close> is the conversion of a \<^verbatim>\<open>ulong\<close> to the 32-bit
  \<^verbatim>\<open>int\<close> (modulo \<open>2^32\<close>, two's complement) and \<open>of_int_ulong\<close> the conversion back.
\<close>

definition ULONG_MAX :: nat where
  "ULONG_MAX = 2 ^ 64 - 1"

definition wrap :: "nat \<Rightarrow> nat" where
  "wrap n = n mod 2 ^ 64"

definition ulong_minus :: "nat \<Rightarrow> nat \<Rightarrow> nat" where
  "ulong_minus a b = nat ((int a - int b) mod 2 ^ 64)"

definition of_int_ulong :: "int \<Rightarrow> nat" where
  "of_int_ulong i = nat (i mod 2 ^ 64)"

definition to_int :: "nat \<Rightarrow> int" where
  "to_int n = (let m = int (n mod 2 ^ 32) in if m < 2 ^ 31 then m else m - 2 ^ 32)"

text \<open>
  The \<^verbatim>\<open>int\<close> expression \<^verbatim>\<open>1 << n\<close> for a \<^verbatim>\<open>ulong\<close> count \<open>n\<close>: \<open>2^n\<close> while that is an
  \<^verbatim>\<open>int\<close>; \<open>2^31\<close> converted to \<^verbatim>\<open>int\<close>, which is \<open>- 2^31\<close>, for \<open>n = 31\<close>; undefined for a
  count of 32 or more.  \<^verbatim>\<open>x >> n\<close> on a \<^verbatim>\<open>ulong\<close> is undefined for a count of 64 or more.
\<close>

definition shl_int_1 :: "nat \<Rightarrow> int option" where
  "shl_int_1 n = (if n < 31 then Some (2 ^ n) else if n = 31 then Some (- (2 ^ 31)) else None)"

definition shr_ulong :: "nat \<Rightarrow> nat \<Rightarrow> nat option" where
  "shr_ulong x n = (if n < 64 then Some (x div 2 ^ n) else None)"

subsection \<open>bucketForLevelLeaf and canInclude (lines 150-158)\<close>

text \<open>
  \<^verbatim>\<open>(leaf + (1 << (this->height - 1))) >> (height - 1 - level)\<close>.  The \<^verbatim>\<open>int\<close> is converted
  to \<^verbatim>\<open>ulong\<close> for the addition.  \<open>None\<close> stands for undefined behaviour.
\<close>

definition bucketForLevelLeaf :: "nat \<Rightarrow> nat \<Rightarrow> nat \<Rightarrow> nat option" where
  "bucketForLevelLeaf height level leaf =
     (case shl_int_1 (ulong_minus height 1) of
        None \<Rightarrow> None
      | Some p \<Rightarrow> shr_ulong (wrap (leaf + of_int_ulong p))
                            (ulong_minus (ulong_minus height 1) level))"

definition canInclude :: "nat \<Rightarrow> nat \<Rightarrow> nat \<Rightarrow> nat \<Rightarrow> bool option" where
  "canInclude height pathLeaf blockPosition level =
     (case bucketForLevelLeaf height level pathLeaf of
        None \<Rightarrow> None
      | Some a \<Rightarrow>
          (case bucketForLevelLeaf height level blockPosition of
             None \<Rightarrow> None
           | Some b \<Rightarrow> Some (a = b)))"

text \<open>The formula of the specification, on unbounded numbers.\<close>

definition bucket_spec :: "nat \<Rightarrow> nat \<Rightarrow> nat \<Rightarrow> nat" where
  "bucket_spec H l leaf = (leaf + 2 ^ (H - 1)) div 2 ^ (H - 1 - l)"

subsection \<open>The state of an ORAM object\<close>

text \<open>
  An \<^verbatim>\<open>ORAM\<close> holds its parameters and three adapters.  The adapters' classes are not
  among the sources, so their state and operations are modelled from the spec:
  the storage adapter keeps one physical block \<open>(id, payload)\<close> per address below its
  capacity; the position map is a total function from block ids to leaves; the stash
  is a collection of \<open>(id, payload)\<close> entries with one entry per id, which \<^verbatim>\<open>getAll\<close>
  enumerates in the order of the list.
\<close>

type_synonym block = "nat \<times> bytes"

record oram =
  height :: nat
  Z :: nat
  dataSize :: nat
  buckets :: nat
  blocks :: nat
  st_capacity :: nat
  st_payload :: nat
  st_mem :: "nat \<Rightarrow> block"
  pmap :: "nat \<Rightarrow> nat"
  stash :: "block list"

text \<open>
  What a member function may raise: the exceptions of the adapters, the
  \<^verbatim>\<open>boost::format\<close> object that \<^verbatim>\<open>checkConsistency\<close> throws, and undefined behaviour (a shift
  count out of range), which is kept apart from every normal return.
\<close>

datatype oram_exn =
    StorageException nat     \<comment> \<open>the storage adapter refuses the address or the payload\<close>
  | StashMiss nat            \<comment> \<open>\<^verbatim>\<open>stash->get\<close> of an id the stash does not hold\<close>
  | NotFoundInPath nat nat   \<comment> \<open>"block %1% is mapped to leaf %2%, but was not found in the path"\<close>
  | Undefined

text \<open>
  A member function takes the object and returns its result, or the exception, with
  the object as the call left it: an exception does not undo what was done before it.
\<close>

type_synonym 'a act = "oram \<Rightarrow> (oram_exn + 'a) \<times> oram"

definition ret :: "'a \<Rightarrow> 'a act" where
  "ret x = (\<lambda>s. (Inr x, s))"

definition throw :: "oram_exn \<Rightarrow> 'a act" where
  "throw e = (\<lambda>s. (Inl e, s))"

definition bind :: "'a act \<Rightarrow> ('a \<Rightarrow> 'b act) \<Rightarrow> 'b act" where
  "bind m f = (\<lambda>s. case m s of (Inl e, s') \<Rightarrow> (Inl e, s') | (Inr x, s') \<Rightarrow> f x s')"

definition defined :: "'a option \<Rightarrow> 'a act" where
  "defined v = (case v of None \<Rightarrow> throw Undefined | Some x \<Rightarrow> ret x)"

primrec for_each :: "'a list \<Rightarrow> ('a \<Rightarrow> unit act) \<Rightarrow> unit act" where
  "for_each [] body = ret ()"
| "for_each (x # xs) body = bind (body x) (\<lambda>_. for_each xs body)"

subsection \<open>The adapters and the random source\<close>

text \<open>
  Modelled from the spec: the storage adapter (section 4.1 and the ORAM physical
  block format).  \<^verbatim>\<open>get\<close> fails at an address that is not valid; \<^verbatim>\<open>set\<close> fails at such an
  address and for a payload that is not of the block's payload size.
\<close>

definition storageGet :: "nat \<Rightarrow> block act" where
  "storageGet a = (\<lambda>s. if a < st_capacity s then (Inr (st_mem s a), s)
                         else (Inl (StorageException a), s))"

definition storageSet :: "nat \<Rightarrow> block \<Rightarrow> unit act" where
  "storageSet a b =
     (\<lambda>s. if a < st_capacity s \<and> length (snd b) = st_payload s
           then (Inr (), s\<lparr>st_mem := (st_mem s)(a := b)\<rparr>)
           else (Inl (StorageException a), s))"

text \<open>Modelled from the spec: the position map, a total function with \<^verbatim>\<open>get\<close> and \<^verbatim>\<open>set\<close>.\<close>

definition mapGet :: "nat \<Rightarrow> nat act" where
  "mapGet bid = (\<lambda>s. (Inr (pmap s bid), s))"

definition mapSet :: "nat \<Rightarrow> nat \<Rightarrow> unit act" where
  "mapSet bid leaf = (\<lambda>s. (Inr (), s\<lparr>pmap := (pmap s)(bid := leaf)\<rparr>))"

text \<open>
  Modelled from the spec: the stash.  \<^verbatim>\<open>add\<close> and \<^verbatim>\<open>update\<close> insert or overwrite, \<^verbatim>\<open>get\<close>
  fails if the id is missing, \<^verbatim>\<open>remove\<close> deletes, \<^verbatim>\<open>getAll\<close> is a snapshot of the entries.
\<close>

fun upsert :: "nat \<Rightarrow> bytes \<Rightarrow> block list \<Rightarrow> block list" where
  "upsert bid d [] = [(bid, d)]"
| "upsert bid d (e # es) = (if fst e = bid then (bid, d) # es else e # upsert bid d es)"

definition stashAdd :: "nat \<Rightarrow> bytes \<Rightarrow> unit act" where
  "stashAdd bid d = (\<lambda>s. (Inr (), s\<lparr>stash := upsert bid d (stash s)\<rparr>))"

definition stashUpdate :: "nat \<Rightarrow> bytes \<Rightarrow> unit act" where
  "stashUpdate bid d = (\<lambda>s. (Inr (), s\<lparr>stash := upsert bid d (stash s)\<rparr>))"

definition stashGet :: "nat \<Rightarrow> bytes act" where
  "stashGet bid = (\<lambda>s. case map_of (stash s) bid of
                          None \<Rightarrow> (Inl (StashMiss bid), s)
                        | Some d \<Rightarrow> (Inr d, s))"

definition stashRemove :: "nat \<Rightarrow> unit act" where
  "stashRemove bid = (\<lambda>s. (Inr (), s\<lparr>stash := filter (\<lambda>e. fst e \<noteq> bid) (stash s)\<rparr>))"

definition stashGetAll :: "block list act" where
  "stashGetAll = (\<lambda>s. (Inr (stash s), s))"

text \<open>
  Modelled from the spec: the random source of utility.cpp.  A call consumes a draw,
  which is an argument here: \<^verbatim>\<open>getRandomBlock(n)\<close> is \<open>n\<close> drawn bytes and
  \<^verbatim>\<open>getRandomULong(max)\<close> is a drawn number reduced into \<open>[0, max)\<close>.
\<close>

definition getRandomBlock :: "nat \<Rightarrow> (nat \<Rightarrow> 8 word) \<Rightarrow> bytes" where
  "getRandomBlock n draw = map draw [0..<n]"

definition getRandomULong :: "nat \<Rightarrow> nat \<Rightarrow> nat" where
  "getRandomULong bound draw = draw mod bound"

text \<open>\<^verbatim>\<open>getRandomULong(1 << (this->height - 1))\<close>, with the \<^verbatim>\<open>int\<close> converted to \<^verbatim>\<open>ulong\<close>.\<close>

definition randomLeaf :: "nat \<Rightarrow> nat act" where
  "randomLeaf draw =
     (\<lambda>s. bind (defined (shl_int_1 (ulong_minus (height s) 1)))
             (\<lambda>p. ret (getRandomULong (of_int_ulong p) draw)) s)"

subsection \<open>readPath (lines 81-96)\<close>

definition readPath :: "nat \<Rightarrow> unit act" where
  "readPath leaf =
     (\<lambda>s. for_each [0..<height s]
             (\<lambda>level.
                bind (defined (bucketForLevelLeaf (height s) level leaf))
                  (\<lambda>bucket.
                     for_each [0..<Z s]
                       (\<lambda>i. bind (storageGet (wrap (bucket * Z s + i)))
                               (\<lambda>(bid, data).
                                  if bid \<noteq> ULONG_MAX then stashAdd bid data else ret ()))))
             s)"

subsection \<open>writePath (lines 98-148)\<close>

text \<open>
  The inner loop over \<^verbatim>\<open>currentStash\<close>: an entry whose leaf shares the bucket of this
  level is appended to \<^verbatim>\<open>toInsert\<close>, and the loop ends when \<^verbatim>\<open>toInsert\<close> holds \<open>Z\<close> entries.
  The same ids are pushed to \<^verbatim>\<open>toDelete\<close> and \<^verbatim>\<open>toDeleteLocal\<close>, as \<^verbatim>\<open>int\<close>s.
\<close>

fun pickEntries :: "oram \<Rightarrow> nat \<Rightarrow> nat \<Rightarrow> block list \<Rightarrow> block list \<Rightarrow> block list option" where
  "pickEntries s leaf level [] toInsert = Some toInsert"
| "pickEntries s leaf level (entry # rest) toInsert =
     (case canInclude (height s) (pmap s (fst entry)) leaf level of
        None \<Rightarrow> None
      | Some include \<Rightarrow>
          if include
          then (if length (toInsert @ [entry]) = Z s then Some (toInsert @ [entry])
                else pickEntries s leaf level rest (toInsert @ [entry]))
          else pickEntries s leaf level rest toInsert)"

text \<open>
  The loop over the \<open>Z\<close> slots of the bucket: while \<^verbatim>\<open>toInsert\<close> is not empty its last
  entry is written and popped, then random blocks with id \<^verbatim>\<open>ULONG_MAX\<close> are written.
\<close>

fun writeBucket :: "nat \<Rightarrow> nat list \<Rightarrow> block list \<Rightarrow> (nat \<Rightarrow> nat \<Rightarrow> 8 word) \<Rightarrow> unit act" where
  "writeBucket bucket [] toInsert draw = ret ()"
| "writeBucket bucket (i # is) toInsert draw =
     (\<lambda>s. let block = wrap (bucket * Z s + i)
           in if toInsert \<noteq> []
              then bind (storageSet block (last toInsert))
                     (\<lambda>_. writeBucket bucket is (butlast toInsert) draw) s
              else bind (storageSet block (ULONG_MAX, getRandomBlock (dataSize s) (draw block)))
                     (\<lambda>_. writeBucket bucket is toInsert draw) s)"

text \<open>
  The loop over the levels, from \<^verbatim>\<open>height - 1\<close> down to 0, with the local variables
  \<^verbatim>\<open>currentStash\<close> and \<^verbatim>\<open>toDelete\<close>.  \<^verbatim>\<open>currentStash.erase(removed)\<close> and \<^verbatim>\<open>stash->remove(removed)\<close>
  take the \<^verbatim>\<open>int\<close> back to a \<^verbatim>\<open>ulong\<close> key.  The result is \<^verbatim>\<open>toDelete\<close>.
\<close>

fun writeLevels :: "nat \<Rightarrow> nat list \<Rightarrow> block list \<Rightarrow> int list \<Rightarrow> (nat \<Rightarrow> nat \<Rightarrow> 8 word)
    \<Rightarrow> int list act" where
  "writeLevels leaf [] currentStash toDelete draw = ret toDelete"
| "writeLevels leaf (level # levels) currentStash toDelete draw =
     (\<lambda>s. bind (defined (pickEntries s leaf level currentStash []))
             (\<lambda>toInsert.
                let toDeleteLocal = map (\<lambda>e. to_int (fst e)) toInsert;
                    currentStash' =
                      filter (\<lambda>e. fst e \<notin> set (map of_int_ulong toDeleteLocal)) currentStash
                in bind (defined (bucketForLevelLeaf (height s) level leaf))
                     (\<lambda>bucket.
                        bind (writeBucket bucket [0..<Z s] toInsert draw)
                          (\<lambda>_. writeLevels leaf levels currentStash'
                                  (toDelete @ toDeleteLocal) draw)))
             s)"

text \<open>
  \<^verbatim>\<open>for (int level = this->height - 1; level >= 0; level--)\<close>: the levels the loop visits.
\<close>

definition levelsDown :: "nat \<Rightarrow> nat list" where
  "levelsDown h =
     (let start = to_int (ulong_minus h 1)
      in if start < 0 then [] else rev [0..<nat start + 1])"

definition writePath :: "nat \<Rightarrow> (nat \<Rightarrow> nat \<Rightarrow> 8 word) \<Rightarrow> unit act" where
  "writePath leaf draw =
     bind stashGetAll
       (\<lambda>currentStash s.
          bind (writeLevels leaf (levelsDown (height s)) currentStash [] draw)
            (\<lambda>toDelete. for_each toDelete (\<lambda>removed. stashRemove (of_int_ulong removed)))
            s)"

subsection \<open>access, get and put (lines 49-79)\<close>

text \<open>
  \<open>leafDraw\<close> is the draw of the call to \<^verbatim>\<open>getRandomULong\<close>, \<open>draw\<close> gives the draws of the
  calls to \<^verbatim>\<open>getRandomBlock\<close>, by the address the block is written to.
\<close>

definition access :: "bool \<Rightarrow> nat \<Rightarrow> bytes \<Rightarrow> nat \<Rightarrow> (nat \<Rightarrow> nat \<Rightarrow> 8 word) \<Rightarrow> bytes act" where
  "access read block data leafDraw draw =
     bind (mapGet block)
       (\<lambda>previousPosition.
          bind (randomLeaf leafDraw)
            (\<lambda>leaf.
               bind (mapSet block leaf)
                 (\<lambda>_. bind (readPath previousPosition)
                         (\<lambda>_. bind (if \<not> read then stashUpdate block data else ret ())
                                 (\<lambda>_. bind (stashGet block)
                                         (\<lambda>returned.
                                            bind (writePath previousPosition draw)
                                              (\<lambda>_. ret returned)))))))"

definition oram_get :: "nat \<Rightarrow> nat \<Rightarrow> (nat \<Rightarrow> nat \<Rightarrow> 8 word) \<Rightarrow> bytes act" where
  "oram_get block leafDraw draw = access True block [] leafDraw draw"

definition oram_put :: "nat \<Rightarrow> bytes \<Rightarrow> nat \<Rightarrow> (nat \<Rightarrow> nat \<Rightarrow> 8 word) \<Rightarrow> unit act" where
  "oram_put block data leafDraw draw =
     bind (access False block data leafDraw draw) (\<lambda>_. ret ())"

subsection \<open>The constructor (lines 12-45)\<close>

text \<open>
  The constructor receives the three adapters: \<open>capacity\<close>, \<open>payload\<close> and \<open>mem0\<close> are the
  storage adapter's capacity, payload size and content, \<open>map0\<close> and \<open>stash0\<close> the position
  map and the stash as they are handed in.  \<^verbatim>\<open>(ulong)1 << height\<close> is undefined for a
  height of 64 or more.  \<open>draw\<close> gives the random block for each address and \<open>leafDraw\<close>
  the draw for each block id.
\<close>

definition ORAM :: "nat \<Rightarrow> nat \<Rightarrow> nat \<Rightarrow> nat \<Rightarrow> nat \<Rightarrow> (nat \<Rightarrow> block) \<Rightarrow> (nat \<Rightarrow> nat) \<Rightarrow> block list
    \<Rightarrow> (nat \<Rightarrow> nat \<Rightarrow> 8 word) \<Rightarrow> (nat \<Rightarrow> nat) \<Rightarrow> (oram_exn + unit) \<times> oram" where
  "ORAM logCapacity blockSize bucketSize capacity payload mem0 map0 stash0 draw leafDraw =
     (let nbuckets = (if logCapacity < 64 then Some (wrap (2 ^ logCapacity)) else None);
          s0 = \<lparr>height = logCapacity, Z = bucketSize, dataSize = ulong_minus blockSize 8,
                buckets = (case nbuckets of None \<Rightarrow> 0 | Some n \<Rightarrow> n),
                blocks = (case nbuckets of None \<Rightarrow> 0 | Some n \<Rightarrow> wrap (n * bucketSize)),
                st_capacity = capacity, st_payload = payload, st_mem = mem0,
                pmap = map0, stash = stash0\<rparr>
      in bind (defined nbuckets)
           (\<lambda>_. bind (for_each [0..<buckets s0]
                         (\<lambda>i. for_each [0..<Z s0]
                                 (\<lambda>j. storageSet (wrap (i * Z s0 + j))
                                         (ULONG_MAX,
                                          getRandomBlock (dataSize s0) (draw (wrap (i * Z s0 + j)))))))
                   (\<lambda>_. for_each [0..<blocks s0]
                           (\<lambda>i. bind (randomLeaf (leafDraw i)) (\<lambda>leaf. mapSet i leaf))))
           s0)"

subsection \<open>checkConsistency (lines 160-196)\<close>

text \<open>
  For every address below \<^verbatim>\<open>blocks\<close> whose slot is occupied: the stash is emptied, the
  path of the leaf the position map gives for that number is read, the stash is
  searched for the number (the search ends at a hit and has no other effect), and
  the function throws.
\<close>

definition clearStash :: "unit act" where
  "clearStash = bind stashGetAll (\<lambda>oldStash. for_each oldStash (\<lambda>entry. stashRemove (fst entry)))"

definition checkConsistency :: "unit act" where
  "checkConsistency =
     (\<lambda>s. for_each [0..<blocks s]
             (\<lambda>block.
                bind (storageGet block)
                  (\<lambda>(bid, data).
                     if bid = ULONG_MAX then ret ()
                     else bind clearStash
                            (\<lambda>_. bind (mapGet block)
                                    (\<lambda>leaf. bind (readPath leaf)
                                               (\<lambda>_. bind stashGetAll
                                                       (\<lambda>entries.
                                                          let found = (block \<in> fst ` set entries)
                                                          in throw (NotFoundInPath block leaf)))))))
             s)"

text \<open>
  A sequence of calls of \<^verbatim>\<open>get\<close> and \<^verbatim>\<open>put\<close> on one object, each with its draws.  The
  caller goes on after a call that threw.
\<close>

datatype call = GetBlock nat | PutBlock nat bytes

fun call_block :: "call \<Rightarrow> nat" where
  "call_block (GetBlock b) = b"
| "call_block (PutBlock b d) = b"

fun perform :: "call \<times> nat \<times> (nat \<Rightarrow> nat \<Rightarrow> 8 word) \<Rightarrow> oram \<Rightarrow> oram" where
  "perform (GetBlock b, leafDraw, draw) s = snd (oram_get b leafDraw draw s)"
| "perform (PutBlock b d, leafDraw, draw) s = snd (oram_put b d leafDraw draw s)"

definition perform_all :: "(call \<times> nat \<times> (nat \<Rightarrow> nat \<Rightarrow> 8 word)) list \<Rightarrow> oram \<Rightarrow> oram" where
  "perform_all calls s = foldl (\<lambda>s c. perform c s) s calls"

subsection \<open>Where a block is\<close>

text \<open>
  The addresses \<^verbatim>\<open>readPath(leaf)\<close> reads, in its order, and the two places a block can be:
  in a slot of the path of the leaf the position map gives for it, or in the stash.
\<close>

definition path_slots :: "oram \<Rightarrow> nat \<Rightarrow> nat list" where
  "path_slots s leaf =
     concat (map (\<lambda>level. case bucketForLevelLeaf (height s) level leaf of
                             None \<Rightarrow> []
                           | Some bucket \<Rightarrow> map (\<lambda>i. wrap (bucket * Z s + i)) [0..<Z s])
                 [0..<height s])"

definition on_path :: "oram \<Rightarrow> nat \<Rightarrow> bool" where
  "on_path s b = (\<exists>a \<in> set (path_slots s (pmap s b)). fst (st_mem s a) = b)"

definition in_stash :: "oram \<Rightarrow> nat \<Rightarrow> bool" where
  "in_stash s b = (b \<in> fst ` set (stash s))"

subsection \<open>A small ORAM\<close>

text \<open>
  The object \<^verbatim>\<open>ORAM(1, 12, 1, ...)\<close>: height 1, one slot per bucket, payloads of 4 bytes,
  2 buckets and 2 blocks; every draw is 0.  \<open>tiny0\<close> is the object after construction,
  \<open>tiny1\<close> after \<^verbatim>\<open>put(1, {1, 2, 3, 4})\<close> and \<open>tiny2\<close> after \<^verbatim>\<open>put(0, {5, 6, 7, 8})\<close> on top.
\<close>

definition tiny0 :: oram where
  "tiny0 = \<lparr>height = 1, Z = 1, dataSize = 4, buckets = 2, blocks = 2, st_capacity = 2,
            st_payload = 4,
            st_mem = (\<lambda>_. (0, []))(0 := (ULONG_MAX, [0, 0, 0, 0]), 1 := (ULONG_MAX, [0, 0, 0, 0])),
            pmap = (\<lambda>_. 5)(0 := 0, 1 := 0), stash = []\<rparr>"

definition tiny1 :: oram where
  "tiny1 = tiny0\<lparr>st_mem := (\<lambda>_. (0, []))(0 := (ULONG_MAX, [0, 0, 0, 0]), 1 := (1, [1, 2, 3, 4]))\<rparr>"

definition tiny2 :: oram where
  "tiny2 = tiny1\<lparr>stash := [(0, [5, 6, 7, 8])]\<rparr>"

subsection \<open>Notions for the proofs\<close>

text \<open>
  The objects the theorems are about: a height of at least 1, at least one slot per
  bucket, \<open>2^height * Z\<close> blocks that all have ids an \<^verbatim>\<open>int\<close> holds, and a storage adapter
  with room for them whose payload size is \<^verbatim>\<open>dataSize\<close>.
\<close>

definition params_ok :: "oram \<Rightarrow> bool" where
  "params_ok s \<longleftrightarrow>
     1 \<le> height s \<and> 1 \<le> Z s \<and> blocks s = 2 ^ height s * Z s \<and> blocks s \<le> 2 ^ 31 \<and>
     blocks s \<le> st_capacity s \<and> st_payload s = dataSize s"

text \<open>The address of slot \<open>i\<close> of the bucket at level \<open>l\<close> of the path to \<open>leaf\<close>.\<close>

definition slot_addr :: "oram \<Rightarrow> nat \<Rightarrow> nat \<Rightarrow> nat \<Rightarrow> nat" where
  "slot_addr s leaf l i = bucket_spec (height s) l leaf * Z s + i"

definition path_set :: "oram \<Rightarrow> nat \<Rightarrow> nat set" where
  "path_set s leaf = {a. \<exists>l i. l < height s \<and> i < Z s \<and> a = slot_addr s leaf l i}"

text \<open>The slots of the path to \<open>leaf\<close> at the levels \<open>Ls\<close>.\<close>

definition slots_of :: "oram \<Rightarrow> nat \<Rightarrow> nat set \<Rightarrow> nat set" where
  "slots_of s leaf Ls = {a. \<exists>l i. l \<in> Ls \<and> i < Z s \<and> a = slot_addr s leaf l i}"

text \<open>The slots of a path, in the order \<^verbatim>\<open>readPath\<close> visits them.\<close>

definition path_list :: "oram \<Rightarrow> nat \<Rightarrow> nat list" where
  "path_list s leaf = concat (map (\<lambda>l. map (\<lambda>i. slot_addr s leaf l i) [0..<Z s]) [0..<height s])"

text \<open>What \<^verbatim>\<open>readPath\<close> does to the stash with the blocks it reads.\<close>

definition read_block :: "block \<Rightarrow> block list \<Rightarrow> block list" where
  "read_block b st = (if fst b \<noteq> ULONG_MAX then upsert (fst b) (snd b) st else st)"

definition read_blocks :: "block list \<Rightarrow> block list \<Rightarrow> block list" where
  "read_blocks bs st = foldl (\<lambda>st b. read_block b st) st bs"

text \<open>
  The invariant of the object, against the content \<open>L\<close> it is meant to hold (the last
  payload put for each id): every occupied slot holds the current payload of its
  block and lies on the path of the block's leaf; the stash holds current payloads
  only; and every block of \<open>L\<close> is in the stash or in a slot of its path.
\<close>

definition oram_inv :: "oram \<Rightarrow> (nat \<rightharpoonup> bytes) \<Rightarrow> bool" where
  "oram_inv s L \<longleftrightarrow>
     params_ok s \<and> distinct (map fst (stash s)) \<and>
     (\<forall>b < blocks s. pmap s b < 2 ^ (height s - 1)) \<and>
     (\<forall>a < blocks s. fst (st_mem s a) \<noteq> ULONG_MAX \<longrightarrow>
        L (fst (st_mem s a)) = Some (snd (st_mem s a)) \<and> a \<in> path_set s (pmap s (fst (st_mem s a)))) \<and>
     (\<forall>b d. map_of (stash s) b = Some d \<longrightarrow> L b = Some d) \<and>
     (\<forall>b d. L b = Some d \<longrightarrow>
        b < blocks s \<and> length d = dataSize s \<and>
        (map_of (stash s) b = Some d \<or> (\<exists>a \<in> path_set s (pmap s b). st_mem s a = (b, d))))"

text \<open>
  A call the object serves: the id is one of its \<open>n\<close> blocks, and a payload that is put
  has the payload size.  \<open>record_call\<close> keeps the content the calls ask for.
\<close>

fun valid_call :: "nat \<Rightarrow> nat \<Rightarrow> call \<Rightarrow> bool" where
  "valid_call n payloadSize (GetBlock b) = (b < n)"
| "valid_call n payloadSize (PutBlock b d) = (b < n \<and> length d = payloadSize)"

fun record_call :: "call \<Rightarrow> (nat \<rightharpoonup> bytes) \<Rightarrow> (nat \<rightharpoonup> bytes)" where
  "record_call (GetBlock b) L = L"
| "record_call (PutBlock b d) L = L(b \<mapsto> d)"

definition record_calls ::
    "(call \<times> nat \<times> (nat \<Rightarrow> nat \<Rightarrow> 8 word)) list \<Rightarrow> (nat \<rightharpoonup> bytes) \<Rightarrow> (nat \<rightharpoonup> bytes)" where
  "record_calls calls L = foldl (\<lambda>L c. record_call (fst c) L) L calls"

section \<open>B+ tree (tree.cpp)\<close>

subsection \<open>Blocks and storage\<close>

text \<open>
  Modelled from the spec: the tree blocks (section 3, B+ Tree blocks) and the storage
  adapter as the tree uses it (section 4.1); tree.cpp and tree.hpp are not among the
  sources.  A block is kept as the typed value its bytes encode, the byte order being
  the implementation's choice: a \<open>NodeBlock\<close> with its pairs \<open>(key, childAddress)\<close>, or a
  \<open>DataBlock\<close> with \<open>nextDataBlock\<close>, \<open>key\<close> and \<open>value\<close>.  Addresses and keys are unsigned
  integers.  The storage has its block size, the sentinel \<open>EMPTY\<close>, the counter that
  \<^verbatim>\<open>malloc\<close> increments, the blocks written so far, and the root address that the meta
  block holds.
\<close>

datatype tblock = NodeBlock "(nat \<times> nat) list" | DataBlock nat nat bytes

record tstorage =
  ts_blockSize :: nat
  ts_EMPTY :: nat
  ts_counter :: nat
  ts_blocks :: "nat \<rightharpoonup> tblock"
  ts_meta :: nat

datatype terr = BlockSizeTooSmall | BlockType nat | EmptyNode nat

definition wordSize :: nat where
  "wordSize = 8"

text \<open>
  Modelled from the spec: \<^verbatim>\<open>malloc\<close> reserves a previously unused address by incrementing
  the counter; a block is written to the address \<^verbatim>\<open>malloc\<close> has just returned, where \<^verbatim>\<open>set\<close>
  does not fail.
\<close>

definition ts_malloc :: "tstorage \<Rightarrow> nat \<times> tstorage" where
  "ts_malloc st = (ts_counter st, st\<lparr>ts_counter := Suc (ts_counter st)\<rparr>)"

definition createBlock :: "tblock \<Rightarrow> tstorage \<Rightarrow> nat \<times> tstorage" where
  "createBlock blk st =
     (case ts_malloc st of (a, st1) \<Rightarrow> (a, st1\<lparr>ts_blocks := (ts_blocks st1)(a \<mapsto> blk)\<rparr>))"

subsection \<open>Construction from a batch\<close>

text \<open>
  Modelled from the spec: the data layer.  For each \<open>(k, v)\<close> a block \<open>(DATA, nextAddr, k, v)\<close>
  is allocated and written, iterating right-to-left so that \<open>nextAddr\<close> is the address of
  the next block, \<open>EMPTY\<close> for the last.  The result is the sequence \<open>P0\<close> of \<open>(k, address)\<close>,
  the leftmost address, and the storage.
\<close>

fun pushData :: "(nat \<times> bytes) list \<Rightarrow> tstorage \<Rightarrow> (nat \<times> nat) list \<times> nat \<times> tstorage" where
  "pushData [] st = ([], ts_EMPTY st, st)"
| "pushData (e # rest) st =
     (case pushData rest st of
        (ps, nxt, st1) \<Rightarrow>
          (case createBlock (DataBlock nxt (fst e) (snd e)) st1 of
             (a, st2) \<Rightarrow> ((fst e, a) # ps, a, st2)))"

text \<open>
  Modelled from the spec: an index layer.  Consecutive pairs are grouped into chunks of
  size \<open>F\<close>; for each chunk a NodeBlock with the chunk's pairs is allocated and written,
  and the new sequence has \<open>(maxKeyInChunk, nodeAddr)\<close> for it.
\<close>

definition fanout :: "nat \<Rightarrow> nat" where
  "fanout blockSize = (blockSize - 1 - wordSize) div (2 * wordSize)"

function chunks :: "nat \<Rightarrow> 'a list \<Rightarrow> 'a list list" where
  "chunks F xs = (if F = 0 \<or> xs = [] then [] else take F xs # chunks F (drop F xs))"
  by pat_completeness auto
termination
  by (relation "measure (\<lambda>(F, xs). length xs)") auto

declare chunks.simps [simp del]

definition maxKey :: "(nat \<times> nat) list \<Rightarrow> nat" where
  "maxKey pairs = foldr max (map fst pairs) 0"

fun pushNodes :: "(nat \<times> nat) list list \<Rightarrow> tstorage \<Rightarrow> (nat \<times> nat) list \<times> tstorage" where
  "pushNodes [] st = ([], st)"
| "pushNodes (c # cs) st =
     (case createBlock (NodeBlock c) st of
        (a, st1) \<Rightarrow>
          (case pushNodes cs st1 of
             (rest, st2) \<Rightarrow> ((maxKey c, a) # rest, st2)))"

definition pushLayer :: "nat \<Rightarrow> (nat \<times> nat) list \<Rightarrow> tstorage \<Rightarrow> (nat \<times> nat) list \<times> tstorage" where
  "pushLayer F current st = pushNodes (chunks F current) st"

text \<open>
  Modelled from the spec: the index layers are pushed while the current sequence has
  more than one entry.  With \<open>F = 1\<close> a layer is as long as the one below it and the loop
  does not end; with \<open>F = 0\<close> no chunk can be formed, which is kept as not returning too.
\<close>

partial_function (option) buildLayers ::
    "nat \<Rightarrow> (nat \<times> nat) list \<Rightarrow> tstorage \<Rightarrow> ((nat \<times> nat) list \<times> tstorage) option" where
  "buildLayers F current st =
     (if length current \<le> 1 then Some (current, st)
      else if F = 0 then None
      else (case pushLayer F current st of (layer, st') \<Rightarrow> buildLayers F layer st'))"

text \<open>
  Modelled from the spec: a tree is its storage, the root address and the leftmost data
  block.  Construction checks the precondition \<open>blockSize \<ge> 1 + 3 * wordSize + v\<close>, builds
  the data layer and the index layers, and writes the address of the one remaining
  entry into the meta block.  An empty batch is treated as opening the storage: the
  root is read from the meta block, and the leftmost data block is found by following
  the first child of each NodeBlock.
\<close>

record tree =
  tr_storage :: tstorage
  tr_root :: nat
  tr_leftmostDataBlock :: nat

partial_function (option) leftmostFrom :: "(nat \<rightharpoonup> tblock) \<Rightarrow> nat \<Rightarrow> (terr + nat) option" where
  "leftmostFrom B a =
     (case B a of
        None \<Rightarrow> Some (Inl (BlockType a))
      | Some (DataBlock nxt key v) \<Rightarrow> Some (Inr a)
      | Some (NodeBlock pairs) \<Rightarrow>
          (case pairs of
             [] \<Rightarrow> Some (Inl (EmptyNode a))
           | p # _ \<Rightarrow> leftmostFrom B (snd p)))"

definition openTree :: "tstorage \<Rightarrow> (terr + tree) option" where
  "openTree st =
     (if ts_meta st = ts_EMPTY st
      then Some (Inr \<lparr>tr_storage = st, tr_root = ts_EMPTY st, tr_leftmostDataBlock = ts_EMPTY st\<rparr>)
      else (case leftmostFrom (ts_blocks st) (ts_meta st) of
              None \<Rightarrow> None
            | Some (Inl e) \<Rightarrow> Some (Inl e)
            | Some (Inr a) \<Rightarrow>
                Some (Inr \<lparr>tr_storage = st, tr_root = ts_meta st, tr_leftmostDataBlock = a\<rparr>)))"

definition Tree :: "tstorage \<Rightarrow> (nat \<times> bytes) list \<Rightarrow> (terr + tree) option" where
  "Tree st D =
     (if D = [] then openTree st
      else if ts_blockSize st < 1 + 3 * wordSize + length (snd (hd D)) then Some (Inl BlockSizeTooSmall)
      else (case pushData D st of
              (P0, leftmost, st1) \<Rightarrow>
                (case buildLayers (fanout (ts_blockSize st)) P0 st1 of
                   None \<Rightarrow> None
                 | Some (layer, st2) \<Rightarrow>
                     Some (Inr \<lparr>tr_storage = st2\<lparr>ts_meta := snd (hd layer)\<rparr>, tr_root = snd (hd layer),
                                tr_leftmostDataBlock = leftmost\<rparr>))))"

subsection \<open>Point query\<close>

text \<open>
  Modelled from the spec: at a NodeBlock the first pair whose key is \<open>\<ge> k\<close> is picked, the
  last pair if there is none; the descent ends at a DataBlock.  From there the \<open>next\<close>
  chain is walked: the value of every block whose key equals \<open>k\<close> is appended to \<open>out\<close>,
  and the walk stops at the first block whose key exceeds \<open>k\<close>, or at \<open>EMPTY\<close>.  Neither loop
  has a bound of its own: on a storage whose pointers form a cycle they do not return.
\<close>

fun pick :: "nat \<Rightarrow> (nat \<times> nat) list \<Rightarrow> nat option" where
  "pick k [] = None"
| "pick k [p] = Some (snd p)"
| "pick k (p # q # ps) = (if k \<le> fst p then Some (snd p) else pick k (q # ps))"

partial_function (option) descend :: "(nat \<rightharpoonup> tblock) \<Rightarrow> nat \<Rightarrow> nat \<Rightarrow> (terr + nat) option" where
  "descend B k a =
     (case B a of
        None \<Rightarrow> Some (Inl (BlockType a))
      | Some (DataBlock nxt key v) \<Rightarrow> Some (Inr a)
      | Some (NodeBlock pairs) \<Rightarrow>
          (case pick k pairs of
             None \<Rightarrow> Some (Inl (EmptyNode a))
           | Some child \<Rightarrow> descend B k child))"

partial_function (option) walk ::
    "(nat \<rightharpoonup> tblock) \<Rightarrow> nat \<Rightarrow> nat \<Rightarrow> nat \<Rightarrow> bytes list \<Rightarrow> (terr + bytes list) option" where
  "walk B E k a out =
     (if a = E then Some (Inr out)
      else case B a of
             Some (DataBlock nxt key v) \<Rightarrow>
               if key = k then walk B E k nxt (out @ [v])
               else if k < key then Some (Inr out)
               else walk B E k nxt out
           | _ \<Rightarrow> Some (Inl (BlockType a)))"

definition search :: "tree \<Rightarrow> nat \<Rightarrow> bytes list \<Rightarrow> (terr + bytes list) option" where
  "search t k out =
     (if tr_root t = ts_EMPTY (tr_storage t) then Some (Inr out)
      else (case descend (ts_blocks (tr_storage t)) k (tr_root t) of
              None \<Rightarrow> None
            | Some (Inl e) \<Rightarrow> Some (Inl e)
            | Some (Inr a) \<Rightarrow>
                walk (ts_blocks (tr_storage t)) (ts_EMPTY (tr_storage t)) k a out))"

subsection \<open>Notions for the proofs about the tree\<close>

text \<open>
  A storage as an adapter keeps it: nothing is stored at an address \<^verbatim>\<open>malloc\<close> has yet to
  return, and \<open>EMPTY\<close> is not such an address.
\<close>

definition ts_wf :: "tstorage \<Rightarrow> bool" where
  "ts_wf st \<longleftrightarrow> ts_EMPTY st < ts_counter st \<and> (\<forall>a. ts_counter st \<le> a \<longrightarrow> ts_blocks st a = None)"

text \<open>The data blocks at the addresses \<open>as\<close> hold the entries of \<open>D\<close> and are linked in order.\<close>

fun chain :: "(nat \<rightharpoonup> tblock) \<Rightarrow> nat \<Rightarrow> (nat \<times> bytes) list \<Rightarrow> nat list \<Rightarrow> bool" where
  "chain B E [] [] = True"
| "chain B E (e # D) (a # as) =
     (a \<noteq> E \<and> B a = Some (DataBlock (case as of [] \<Rightarrow> E | b # _ \<Rightarrow> b) (fst e) (snd e)) \<and>
      chain B E D as)"
| "chain B E [] (a # as) = False"
| "chain B E (e # D) [] = False"

text \<open>
  The entry \<open>(key, address)\<close> of a layer at height \<open>h\<close> covers the segment \<open>seg\<close> of \<open>P0\<close>: at
  height 0 it is the one entry of the segment and its address holds a DataBlock; above,
  its address holds a NodeBlock whose pairs cover the parts of the segment in order.
  The key is that of the last entry of the segment.
\<close>

primrec covers :: "(nat \<rightharpoonup> tblock) \<Rightarrow> nat \<Rightarrow> nat \<times> nat \<Rightarrow> (nat \<times> nat) list \<Rightarrow> bool" where
  "covers B 0 = (\<lambda>e seg. seg = [e] \<and> (\<exists>nxt v. B (snd e) = Some (DataBlock nxt (fst e) v)))"
| "covers B (Suc h) =
     (\<lambda>e seg. \<exists>pairs segs. B (snd e) = Some (NodeBlock pairs) \<and> pairs \<noteq> [] \<and>
                 list_all2 (covers B h) pairs segs \<and> seg = concat segs \<and> seg \<noteq> [] \<and>
                 fst e = fst (last seg))"

section \<open>Properties of the storage adapters\<close>

lemma length_resize: "length (resize n xs) = n"
  by (simp add: resize_def)

lemma bytesFromNumber_0: "bytesFromNumber 0 = replicate 8 0"
  by (simp add: bytesFromNumber_def upt_rec numeral_eq_Suc)

lemma fresh32_constructed: "FileSystemStorageAdapter 0 32 None True = Inr fresh32"
  by (simp add: FileSystemStorageAdapter_def fs_set_def fs_checkLocation_def fs_meta_def
      fs_empty_def resize_def stream_write_def fresh32_def bytesFromNumber_0 Let_def
      replicate_add [symmetric])

lemma im_get_throws: "throws (im_get s a out) = (a \<ge> im_locationCounter s)"
  by (simp add: im_get_def im_checkLocation_def throws_def split: option.splits)

lemma im_set_throws: "length d = unat (im_blockSize s) \<Longrightarrow> throws (im_set s a d) = (a \<ge> im_locationCounter s)"
  by (simp add: im_set_def im_checkLocation_def throws_def split: option.splits)

lemma fs_get_throws: "fs_blockSize s \<noteq> 0 \<Longrightarrow> throws (fs_get s a out u) = (a > fs_locationCounter s \<or> a mod fs_blockSize s \<noteq> 0)"
  by (auto simp add: fs_get_def fs_checkLocation_def throws_def Let_def split: prod.splits)

lemma fs_set_throws: "fs_blockSize s \<noteq> 0 \<Longrightarrow> length d = unat (fs_blockSize s) \<Longrightarrow> throws (fs_set s a d) = (a > fs_locationCounter s \<or> a mod fs_blockSize s \<noteq> 0)"
  by (auto simp add: fs_set_def fs_checkLocation_def throws_def Let_def split: prod.splits)

lemma memory32_constructed: "InMemoryStorageAdapter 0 1 2 32 = Inr memory32"
  by (simp add: InMemoryStorageAdapter_def im_set_def im_checkLocation_def im_meta_def
      im_empty_def resize_def memory32_def bytesFromNumber_0 Let_def replicate_add [symmetric]
      word_le_nat_alt)

lemma stream_read_write: "length buf = length d \<Longrightarrow> stream_read (stream_write f pos d) pos (length d) buf = (d, True)"
  by (simp add: stream_read_def stream_write_def Let_def)

lemma im_round: "a < im_locationCounter s \<Longrightarrow> length d = unat (im_blockSize s) \<Longrightarrow>
   \<exists>s1. im_set s a d = Inr s1 \<and> im_get s1 a [] = Inr (d, s1)"
  by (simp add: im_set_def im_get_def im_checkLocation_def)

lemma fs_round:
  assumes "\<not> fs_fail s" "fs_blockSize s \<noteq> 0" "a \<le> fs_locationCounter s"
    "a mod fs_blockSize s = 0" "length d = unat (fs_blockSize s)"
  shows "\<exists>s1. fs_set s a d = Inr s1 \<and> fs_get s1 a [] u = Inr (d, s1)"
proof -
  let ?s1 = "s\<lparr>fs_file := stream_write (fs_file s) (unat a) d\<rparr>"
  have chk: "fs_checkLocation s a = Inr ()" "fs_checkLocation ?s1 a = Inr ()"
    using assms by (simp_all add: fs_checkLocation_def not_less)
  have set: "fs_set s a d = Inr ?s1"
    using assms chk by (simp add: fs_set_def)
  have rd: "stream_read (fs_file ?s1) (unat a) (length d) (map u [0..<length d]) = (d, True)"
    by (simp add: stream_read_write)
  have "fs_get ?s1 a [] u = Inr (d, ?s1)"
    using assms(1) chk(2) rd by (simp add: fs_get_def assms(5) [symmetric])
  with set show ?thesis by blast
qed


lemma fs_get_keeps: "fs_get s a r u = Inr (x, s') \<Longrightarrow>
  fs_locationCounter s' = fs_locationCounter s \<and> fs_blockSize s' = fs_blockSize s"
  by (auto simp: fs_get_def Let_def split: sum.splits if_splits prod.splits)

lemma fs_set_keeps: "fs_set s a d = Inr s' \<Longrightarrow>
  fs_locationCounter s' = fs_locationCounter s \<and> fs_blockSize s' = fs_blockSize s"
  by (auto simp: fs_set_def Let_def split: sum.splits if_splits prod.splits)

lemma fs_run_increasing:
  "fs_blockSize s \<noteq> 0 \<Longrightarrow>
   unat (fs_locationCounter s) + count_malloc calls * unat (fs_blockSize s) < 2 ^ 64 \<Longrightarrow>
   sorted_wrt (<) (fst (fs_run calls s)) \<and> (\<forall>a \<in> set (fst (fs_run calls s)). fs_locationCounter s < a)"
proof (induction calls arbitrary: s)
  case Nil
  then show ?case by simp
next
  case (Cons c cs)
  show ?case
  proof (cases c)
    case Malloc
    let ?a = "fs_locationCounter s + fs_blockSize s"
    let ?s' = "s\<lparr>fs_locationCounter := ?a\<rparr>"
    from Cons.prems Malloc have nowrap: "unat (fs_locationCounter s) + unat (fs_blockSize s) < 2 ^ 64"
      by (simp add: algebra_simps) 
    then have ua: "unat ?a = unat (fs_locationCounter s) + unat (fs_blockSize s)"
      by (simp add: unat_add_lem [THEN iffD1])
    have "unat (fs_blockSize s) \<noteq> 0" using Cons.prems(1) by (simp add: unat_eq_0)
    with ua have lt: "fs_locationCounter s < ?a" by (simp add: word_less_nat_alt)
    have "sorted_wrt (<) (fst (fs_run cs ?s')) \<and> (\<forall>a \<in> set (fst (fs_run cs ?s')). fs_locationCounter ?s' < a)"
      using Cons.prems Malloc ua by (intro Cons.IH) (simp_all add: algebra_simps)
    with lt show ?thesis using Malloc
      by (auto simp: fs_malloc_def split: prod.splits intro: less_trans)
  next
    case (Get a r u)
    show ?thesis
    proof (cases "fs_get s a r u")
      case (Inl e)
      with Get Cons show ?thesis by (simp split: prod.splits)
    next
      case (Inr p)
      obtain x s' where p: "p = (x, s')" by (cases p)
      from Inr p fs_get_keeps have k: "fs_locationCounter s' = fs_locationCounter s" "fs_blockSize s' = fs_blockSize s"
        by blast+
      have "sorted_wrt (<) (fst (fs_run cs s')) \<and> (\<forall>a \<in> set (fst (fs_run cs s')). fs_locationCounter s' < a)"
        using Cons.prems Get k by (intro Cons.IH) simp_all
      with Get Inr p k show ?thesis by (simp split: prod.splits)
    qed
  next
    case (Set a d)
    show ?thesis
    proof (cases "fs_set s a d")
      case (Inl e)
      with Set Cons show ?thesis by (simp split: prod.splits)
    next
      case (Inr s')
      from Inr fs_set_keeps have k: "fs_locationCounter s' = fs_locationCounter s" "fs_blockSize s' = fs_blockSize s"
        by blast+
      have "sorted_wrt (<) (fst (fs_run cs s')) \<and> (\<forall>a \<in> set (fst (fs_run cs s')). fs_locationCounter s' < a)"
        using Cons.prems Set k by (intro Cons.IH) simp_all
      with Set Inr k show ?thesis by (simp split: prod.splits)
    qed
  qed
qed

lemma fs_first_malloc:
  assumes "blockSize \<noteq> 0" "unat blockSize < 2 ^ 63"
  shows "\<exists>s. FileSystemStorageAdapter E blockSize existing True = Inr s \<and>
             fs_locationCounter s = 2 * blockSize \<and> fst (fs_malloc s) = 3 * blockSize"
proof -
  have "unat (2 * blockSize) = 2 * unat blockSize"
    using assms(2) by (simp add: unat_word_ariths)
  then have "blockSize \<le> 2 * blockSize" by (simp add: word_le_nat_alt)
  then show ?thesis using assms(1)
    by (simp add: FileSystemStorageAdapter_def fs_set_def fs_checkLocation_def fs_meta_def
        Let_def length_resize not_less fs_malloc_def)
qed

lemma length_stream_read:
  "length buffer = n \<Longrightarrow> length (fst (stream_read file pos n buffer)) = n"
  by (simp add: stream_read_def Let_def)

lemma im_get_prepends:
  "im_get s a out = map_sum id (\<lambda>(block, s'). (block @ out, s')) (im_get s a [])"
  by (simp add: im_get_def split: sum.splits option.splits)

lemma fs_get_prepends:
  "fs_get t a out u = map_sum id (\<lambda>(block, t'). (block @ out, t')) (fs_get t a [] u)"
  by (simp add: fs_get_def Let_def split: sum.splits prod.splits)

lemma fs_get_length:
  "fs_get t a [] u = Inr (block, t') \<Longrightarrow> length block = unat (fs_blockSize t)"
  using length_stream_read [of "map u [0..<unat (fs_blockSize t)]" "unat (fs_blockSize t)"
      "fs_file t" "unat a"]
  by (auto simp: fs_get_def Let_def split: sum.splits prod.splits if_splits)


subsection \<open>C5: what the file-backed malloc returns\<close>

text \<open>
  C5, as stated, asks \<^verbatim>\<open>malloc\<close> of the file-backed adapter to return the end offset as
  it was before the call, \<open>2 * blockSize\<close> for the first call after a truncating
  construction.  The code returns the cursor as it is after the call: on the adapter
  of the tests (block size 32) the cursor stands at 64 and the first \<^verbatim>\<open>malloc\<close> returns 96.
\<close>

theorem fs_malloc_previous_end_counterexample:
  "FileSystemStorageAdapter 0 32 None True = Inr fresh32 \<and>
   fs_locationCounter fresh32 = 64 \<and>
   fst (fs_malloc fresh32) = 96 \<and>
   fst (fs_malloc fresh32) \<noteq> fs_locationCounter fresh32"
  by (simp add: fresh32_constructed) (simp add: fresh32_def fs_malloc_def)

text \<open>
  C5, amended: every call of \<^verbatim>\<open>malloc\<close> advances the cursor by \<open>blockSize\<close> and returns
  the cursor as it is after the call; the first call after a construction with
  \<^verbatim>\<open>truncate = true\<close> returns \<open>3 * blockSize\<close> (for a block size below \<open>2^63\<close>, where the
  constructor returns); and across any sequence of calls of \<^verbatim>\<open>malloc\<close>, \<^verbatim>\<open>get\<close> and \<^verbatim>\<open>set\<close>
  in which the cursor does not wrap around \<open>2^64\<close>, the addresses returned are strictly
  increasing and all beyond the cursor the sequence started from.
\<close>

theorem fs_malloc_returns_new_cursor:
  assumes "fs_blockSize s \<noteq> 0"
    and "unat (fs_locationCounter s) + count_malloc calls * unat (fs_blockSize s) < 2 ^ 64"
    and "blockSize \<noteq> 0" and "unat blockSize < 2 ^ 63"
  shows "fst (fs_malloc s) = fs_locationCounter s + fs_blockSize s \<and>
         fs_locationCounter (snd (fs_malloc s)) = fs_locationCounter s + fs_blockSize s \<and>
         (\<exists>s0. FileSystemStorageAdapter E blockSize existing True = Inr s0 \<and>
               fs_locationCounter s0 = 2 * blockSize \<and> fst (fs_malloc s0) = 3 * blockSize) \<and>
         sorted_wrt (<) (fst (fs_run calls s)) \<and>
         (\<forall>a \<in> set (fst (fs_run calls s)). fs_locationCounter s < a)"
  using fs_run_increasing [OF assms(1,2)] fs_first_malloc [OF assms(3,4)]
  by (simp add: fs_malloc_def)

theorem fs_malloc_returns_new_cursor_witness:
  "fst (fs_malloc fresh32) = 96 \<and>
   fst (fs_run [Malloc, Set 96 (replicate 32 1), Malloc] fresh32) = [96, 128] \<and>
   sorted_wrt (<) (fst (fs_run [Malloc, Set 96 (replicate 32 1), Malloc] fresh32)) \<and>
   (\<exists>s0. FileSystemStorageAdapter 0 32 None True = Inr s0 \<and> fst (fs_malloc s0) = 96)"
proof -
  have run: "fst (fs_run [Malloc, Set 96 (replicate 32 1), Malloc] fresh32) = [96, 128]"
    by (simp add: fresh32_def fs_malloc_def fs_set_def fs_checkLocation_def)
  have "fs_blockSize fresh32 \<noteq> 0"
    and "unat (fs_locationCounter fresh32)
          + count_malloc [Malloc, Set 96 (replicate 32 1), Malloc] * unat (fs_blockSize fresh32)
         < 2 ^ 64"
    and "(32 :: number) \<noteq> 0" and "unat (32 :: number) < 2 ^ 63"
    by (simp_all add: fresh32_def)
  from fs_malloc_returns_new_cursor [OF this, of 0 None]
  have "fst (fs_malloc fresh32) = fs_locationCounter fresh32 + fs_blockSize fresh32"
    and "sorted_wrt (<) (fst (fs_run [Malloc, Set 96 (replicate 32 1), Malloc] fresh32))"
    and "\<exists>s0. FileSystemStorageAdapter 0 32 None True = Inr s0 \<and> fst (fs_malloc s0) = 3 * 32"
    by blast+
  with run show ?thesis
    by (simp add: fresh32_def)
qed

subsection \<open>C6: which addresses the adapters refuse\<close>

text \<open>
  C6, as stated, has \<^verbatim>\<open>get\<close> and \<^verbatim>\<open>set\<close> throw at every address that \<^verbatim>\<open>malloc\<close> did not
  return and that is not \<^verbatim>\<open>meta()\<close>.  On the file-backed adapter of the tests, before any
  \<^verbatim>\<open>malloc\<close>, \<^verbatim>\<open>set\<close> at 64 and \<^verbatim>\<open>get\<close> at 0 return; \<^verbatim>\<open>meta()\<close> is 32.
\<close>

theorem unallocated_access_counterexample:
  "FileSystemStorageAdapter 0 32 None True = Inr fresh32 \<and>
   fs_meta fresh32 = 32 \<and>
   returns (fs_set fresh32 64 (replicate 32 1)) \<and>
   returns (fs_get fresh32 0 [] (\<lambda>_. 0))"
  by (simp add: fresh32_constructed)
     (simp add: fresh32_def fs_meta_def fs_set_def fs_get_def fs_checkLocation_def returns_def
        stream_read_def Let_def)

text \<open>
  C6, amended: the adapters refuse exactly the addresses their \<^verbatim>\<open>checkLocation\<close> names.
  In memory, \<^verbatim>\<open>get\<close> throws if and only if the address is at or above
  \<^verbatim>\<open>locationCounter\<close>, and so does \<^verbatim>\<open>set\<close> of a block of the right size.  On a file (with a
  block size that is not zero), \<^verbatim>\<open>get\<close> throws if and only if the address is beyond
  \<^verbatim>\<open>locationCounter\<close> or is not a multiple of the block size, and so does \<^verbatim>\<open>set\<close> of a block
  of the right size.  Neither adapter has a lower bound: addresses under the counter
  are served whether or not \<^verbatim>\<open>malloc\<close> handed them out.
\<close>

theorem access_throws_iff:
  assumes "length d = unat (im_blockSize s)"
    and "fs_blockSize t \<noteq> 0" and "length e = unat (fs_blockSize t)"
  shows "throws (im_get s a out) = (im_locationCounter s \<le> a) \<and>
         throws (im_set s a d) = (im_locationCounter s \<le> a) \<and>
         throws (fs_get t b out u) = (fs_locationCounter t < b \<or> b mod fs_blockSize t \<noteq> 0) \<and>
         throws (fs_set t b e) = (fs_locationCounter t < b \<or> b mod fs_blockSize t \<noteq> 0)"
  using assms by (simp add: im_get_throws im_set_throws fs_get_throws fs_set_throws)

theorem access_throws_iff_witness:
  "throws (im_get memory32 2 []) \<and> throws (im_set memory32 2 (replicate 32 1)) \<and>
   throws (fs_get fresh32 96 [] (\<lambda>_. 0)) \<and> throws (fs_set fresh32 5 (replicate 32 1)) \<and>
   returns (im_set memory32 0 (replicate 32 1))"
proof -
  have "length (replicate 32 (1 :: 8 word)) = unat (im_blockSize memory32)"
    and "fs_blockSize fresh32 \<noteq> 0"
    and "length (replicate 32 (1 :: 8 word)) = unat (fs_blockSize fresh32)"
    by (simp_all add: memory32_def fresh32_def)
  note iff = access_throws_iff [OF this]
  have "throws (im_get memory32 2 [])" "throws (im_set memory32 2 (replicate 32 1))"
    using iff [of 2 "[]" 0 "\<lambda>_. 0"] by (simp_all add: memory32_def)
  moreover have "throws (fs_get fresh32 96 [] (\<lambda>_. 0))"
    using iff [of 0 "[]" 96 "\<lambda>_. 0"] by (simp add: fresh32_def)
  moreover have "throws (fs_set fresh32 5 (replicate 32 1))"
    using iff [of 0 "[]" 5 "\<lambda>_. 0"] by (simp add: fresh32_def word_mod_def)
  moreover have "returns (im_set memory32 0 (replicate 32 1))"
    by (simp add: memory32_def im_set_def im_checkLocation_def returns_def)
  ultimately show ?thesis by simp
qed

subsection \<open>C8: writing a block and reading it back\<close>

lemma round_trip_in_memory:
  assumes "a < im_locationCounter s" and "length d = unat (im_blockSize s)"
  shows "\<exists>s1. im_set s a d = Inr s1 \<and> im_get s1 a [] = Inr (d, s1)"
  using im_round [OF assms] .

lemma round_trip_on_good_stream:
  assumes "\<not> fs_fail t" and "fs_blockSize t \<noteq> 0"
    and "b \<le> fs_locationCounter t" and "b mod fs_blockSize t = 0"
    and "length e = unat (fs_blockSize t)"
  shows "\<exists>t1. fs_set t b e = Inr t1 \<and> fs_get t1 b [] u = Inr (e, t1)"
  using fs_round [OF assms] .

text \<open>
  C8 asks for the round trip at every allocated address of both adapters: \<^verbatim>\<open>set(a, data)\<close>
  and then \<^verbatim>\<open>get(a)\<close> yields \<open>data\<close>.  The in-memory adapter delivers it in every state
  (\<open>round_trip_in_memory\<close>), the file-backed adapter only while its stream is good
  (\<open>round_trip_on_good_stream\<close>).  On the file-backed adapter of the tests, \<^verbatim>\<open>malloc()\<close>
  returns 96; a \<^verbatim>\<open>get(96, ...)\<close> of that block, which the file does not hold yet, meets
  the end of the file and leaves the stream failed; \<^verbatim>\<open>set(96, data)\<close> then returns
  normally without writing, and the next \<^verbatim>\<open>get(96, ...)\<close> yields what \<^verbatim>\<open>placeholder\<close>
  held, here zeros and not the ones that were set.  \<^verbatim>\<open>get\<close> and \<^verbatim>\<open>set\<close> never test or
  clear the stream state, which the constructor does test after \<^verbatim>\<open>open\<close>.  The same calls
  on the in-memory adapter (\<^verbatim>\<open>malloc()\<close> returns 2) keep the round trip.
\<close>

theorem file_round_trip_lost_after_failed_read:
  "FileSystemStorageAdapter 0 32 None True = Inr fresh32 \<and>
   fs_malloc fresh32 = (96, fresh32\<lparr>fs_locationCounter := 96\<rparr>) \<and>
   fs_get (fresh32\<lparr>fs_locationCounter := 96\<rparr>) 96 [] (\<lambda>_. 0) = Inr (replicate 32 0, failed32) \<and>
   fs_set failed32 96 (replicate 32 1) = Inr failed32 \<and>
   fs_get failed32 96 [] (\<lambda>_. 0) = Inr (replicate 32 0, failed32) \<and>
   replicate 32 (0 :: 8 word) \<noteq> replicate 32 1 \<and>
   InMemoryStorageAdapter 0 1 2 32 = Inr memory32 \<and>
   im_malloc memory32 = (2, memory32\<lparr>im_locationCounter := 3\<rparr>) \<and>
   im_get (memory32\<lparr>im_locationCounter := 3\<rparr>) 2 [] =
     Inr ([], memory32\<lparr>im_locationCounter := 3, im_memory := [1 \<mapsto> replicate 32 0, 2 \<mapsto> []]\<rparr>) \<and>
   im_set (memory32\<lparr>im_locationCounter := 3, im_memory := [1 \<mapsto> replicate 32 0, 2 \<mapsto> []]\<rparr>)
       2 (replicate 32 1) =
     Inr (memory32\<lparr>im_locationCounter := 3,
                    im_memory := [1 \<mapsto> replicate 32 0, 2 \<mapsto> replicate 32 1]\<rparr>) \<and>
   im_get (memory32\<lparr>im_locationCounter := 3,
                     im_memory := [1 \<mapsto> replicate 32 0, 2 \<mapsto> replicate 32 1]\<rparr>) 2 [] =
     Inr (replicate 32 1,
          memory32\<lparr>im_locationCounter := 3,
                     im_memory := [1 \<mapsto> replicate 32 0, 2 \<mapsto> replicate 32 1]\<rparr>)"
proof (intro conjI)
  show "FileSystemStorageAdapter 0 32 None True = Inr fresh32"
    by (rule fresh32_constructed)
  show "InMemoryStorageAdapter 0 1 2 32 = Inr memory32"
    by (rule memory32_constructed)
  show "replicate 32 (0 :: 8 word) \<noteq> replicate 32 1"
    by simp
qed (simp_all add: fresh32_def failed32_def memory32_def fs_malloc_def fs_set_def fs_get_def
       fs_checkLocation_def stream_read_def im_malloc_def im_get_def im_set_def
       im_checkLocation_def Let_def map_replicate_const word_le_nat_alt)

subsection \<open>C10: what get inserts in front of the buffer\<close>












section \<open>Properties of the ORAM\<close>

lemmas act_defs = ret_def throw_def bind_def defined_def storageGet_def storageSet_def
  mapGet_def mapSet_def stashAdd_def stashUpdate_def stashGet_def stashRemove_def stashGetAll_def
  getRandomBlock_def getRandomULong_def randomLeaf_def

lemmas int_defs = ULONG_MAX_def wrap_def ulong_minus_def of_int_ulong_def to_int_def shl_int_1_def
  shr_ulong_def bucketForLevelLeaf_def canInclude_def levelsDown_def

lemma upt_small: "[0..<2] = [0, 1]" "[0..<1] = [0]" "[0..<Suc 0] = [0]" "[0..<4] = [0, 1, 2, 3]"
  by (simp_all add: upt_rec)

subsection \<open>C7: the bucket of a level and a leaf\<close>

lemma ulong_minus_small: "b \<le> a \<Longrightarrow> a < 2 ^ 64 \<Longrightarrow> ulong_minus a b = a - b"
  by (simp add: ulong_minus_def nat_diff_distrib' flip: of_nat_diff)

lemma bucketForLevelLeaf_spec:
  assumes "1 \<le> H" "H \<le> 31" "leaf < 2 ^ (H - 1)" "l < H"
  shows "bucketForLevelLeaf H l leaf = Some (bucket_spec H l leaf)"
proof -
  have H64: "H < 2 ^ 64" using assms(2) by (simp add: order_le_less_trans)
  have m1: "ulong_minus H 1 = H - 1" using assms(1) H64 by (simp add: ulong_minus_small)
  have m2: "ulong_minus (H - 1) l = H - 1 - l" using assms H64 by (simp add: ulong_minus_small)
  have s: "shl_int_1 (H - 1) = Some (2 ^ (H - 1))" using assms by (simp add: shl_int_1_def)
  have "(2::nat) ^ (H - 1) \<le> 2 ^ 30" using assms by (intro power_increasing) simp_all
  then have p: "(2::nat) ^ (H - 1) \<le> 1073741824" by simp
  then have o: "of_int_ulong (2 ^ (H - 1)) = 2 ^ (H - 1)"
    by (simp add: of_int_ulong_def nat_mod_distrib nat_power_eq)
  have w: "wrap (leaf + 2 ^ (H - 1)) = leaf + 2 ^ (H - 1)"
    using assms(3) p by (simp add: wrap_def)
  have "H - 1 - l < 64" using assms by simp
  then have r: "shr_ulong (leaf + 2 ^ (H - 1)) (H - 1 - l) = Some (bucket_spec H l leaf)"
    by (simp only: shr_ulong_def bucket_spec_def if_True)
  show ?thesis
    unfolding bucketForLevelLeaf_def m1 m2 s option.case o w r ..
qed

lemma bucket_spec_leaf_row: "1 \<le> H \<Longrightarrow> bucket_spec H (H - 1) leaf = leaf + 2 ^ (H - 1)"
  by (simp add: bucket_spec_def)

lemma bucket_spec_root: "1 \<le> H \<Longrightarrow> leaf < 2 ^ (H - 1) \<Longrightarrow> bucket_spec H 0 leaf = 1"
  by (simp add: bucket_spec_def div_nat_eqI)

text \<open>
  C7, as stated, takes every height \<open>H \<ge> 1\<close>.  \<^verbatim>\<open>1 << (height - 1)\<close> is an \<^verbatim>\<open>int\<close>: at
  height 32 it is \<open>- 2^31\<close>, and for leaf 0 the root level gets bucket 8589934591
  where the formula gives 1.
\<close>

theorem bucket_geometry_counterexample:
  "bucketForLevelLeaf 32 0 0 = Some 8589934591 \<and> (0 + 2 ^ (32 - 1)) div 2 ^ (32 - 1 - 0) = (1 :: nat)"
  by (simp add: int_defs)

text \<open>
  C7, amended: for every height \<open>H\<close> from 1 to 31, every leaf in \<open>[0, 2^(H-1))\<close> and every
  level \<open>l\<close> in \<open>[0, H)\<close>, \<^verbatim>\<open>bucketForLevelLeaf(l, leaf)\<close> is \<open>(leaf + 2^(H-1)) >> (H - 1 - l)\<close>;
  in particular it is \<open>leaf + 2^(H-1)\<close> at level \<open>H - 1\<close> and 1 at level 0.
\<close>

theorem bucket_geometry:
  assumes "1 \<le> H" and "H \<le> 31" and "leaf < 2 ^ (H - 1)" and "l < H"
  shows "bucketForLevelLeaf H l leaf = Some ((leaf + 2 ^ (H - 1)) div 2 ^ (H - 1 - l)) \<and>
         bucketForLevelLeaf H (H - 1) leaf = Some (leaf + 2 ^ (H - 1)) \<and>
         bucketForLevelLeaf H 0 leaf = Some 1"
proof -
  have "bucketForLevelLeaf H l leaf = Some (bucket_spec H l leaf)"
    and "bucketForLevelLeaf H (H - 1) leaf = Some (bucket_spec H (H - 1) leaf)"
    and "bucketForLevelLeaf H 0 leaf = Some (bucket_spec H 0 leaf)"
    using assms by (simp_all add: bucketForLevelLeaf_spec)
  then show ?thesis
    using assms bucket_spec_leaf_row [of H leaf] bucket_spec_root [of H leaf]
    by (simp add: bucket_spec_def)
qed

theorem bucket_geometry_witness:
  "bucketForLevelLeaf 3 1 2 = Some 3 \<and> bucketForLevelLeaf 3 2 2 = Some 6 \<and>
   bucketForLevelLeaf 3 0 2 = Some 1"
  using bucket_geometry [of 3 2 1] by simp

subsection \<open>The small ORAM, step by step\<close>

lemma tiny0_constructed:
  "ORAM 1 12 1 2 4 (\<lambda>_. (0, [])) (\<lambda>_. 5) [] (\<lambda>_ _. 0) (\<lambda>_. 0) = (Inr (), tiny0)"
  by (simp add: ORAM_def act_defs int_defs upt_small tiny0_def Let_def)

lemma tiny1_put: "oram_put 1 [1, 2, 3, 4] 0 (\<lambda>_ _. 0) tiny0 = (Inr (), tiny1)"
  by (simp add: oram_put_def access_def readPath_def writePath_def act_defs int_defs upt_small
      tiny0_def tiny1_def Let_def fun_eq_iff)

lemma tiny2_put: "oram_put 0 [5, 6, 7, 8] 0 (\<lambda>_ _. 0) tiny1 = (Inr (), tiny2)"
  by (simp add: oram_put_def access_def readPath_def writePath_def act_defs int_defs upt_small
      tiny0_def tiny1_def tiny2_def Let_def fun_eq_iff)

subsection \<open>C4: checkConsistency\<close>

text \<open>
  C4 has \<^verbatim>\<open>checkConsistency\<close> return normally when every occupied block is found on its
  path.  After \<^verbatim>\<open>put(1, ...)\<close> on the small ORAM the only occupied slot is address 1, it
  holds block 1, it is on the path of the leaf of block 1, and the path read finds
  the block; \<^verbatim>\<open>checkConsistency\<close> still throws, because the \<^verbatim>\<open>throw\<close> follows the search
  whatever the search found.  It returns normally only while no slot is occupied.
\<close>

theorem checkConsistency_throws_when_found:
  "ORAM 1 12 1 2 4 (\<lambda>_. (0, [])) (\<lambda>_. 5) [] (\<lambda>_ _. 0) (\<lambda>_. 0) = (Inr (), tiny0) \<and>
   oram_put 1 [1, 2, 3, 4] 0 (\<lambda>_ _. 0) tiny0 = (Inr (), tiny1) \<and>
   on_path tiny1 1 \<and>
   stash (snd (bind clearStash (\<lambda>_. readPath (pmap tiny1 1)) tiny1)) = [(1, [1, 2, 3, 4])] \<and>
   fst (checkConsistency tiny1) = Inl (NotFoundInPath 1 0) \<and>
   fst (checkConsistency tiny0) = Inr ()"
proof (intro conjI)
  show "on_path tiny1 1"
    by (simp add: on_path_def path_slots_def int_defs upt_small tiny0_def tiny1_def)
  show "stash (snd (bind clearStash (\<lambda>_. readPath (pmap tiny1 1)) tiny1)) = [(1, [1, 2, 3, 4])]"
    by (simp add: clearStash_def readPath_def act_defs int_defs upt_small tiny0_def tiny1_def)
  show "fst (checkConsistency tiny1) = Inl (NotFoundInPath 1 0)"
    by (simp add: checkConsistency_def clearStash_def readPath_def act_defs int_defs upt_small
        tiny0_def tiny1_def Let_def)
  show "fst (checkConsistency tiny0) = Inr ()"
    by (simp add: checkConsistency_def act_defs int_defs upt_small tiny0_def)
qed (rule tiny0_constructed tiny1_put)+

subsection \<open>The geometry of the paths\<close>

lemma height_le_31: "params_ok s \<Longrightarrow> height s \<le> 31"
proof -
  assume p: "params_ok s"
  then have "(2::nat) ^ height s \<le> 2 ^ height s * Z s" by (simp add: params_ok_def)
  also have "\<dots> = blocks s" using p by (simp add: params_ok_def)
  also have "\<dots> \<le> 2 ^ 31" using p by (simp add: params_ok_def)
  finally have "(2::nat) ^ height s \<le> 2 ^ 31" .
  then show ?thesis by (rule power_le_imp_le_exp [rotated]) simp
qed

lemma bucket_spec_bounds:
  assumes "1 \<le> H" "leaf < 2 ^ (H - 1)" "l < H"
  shows "2 ^ l \<le> bucket_spec H l leaf" "bucket_spec H l leaf < 2 ^ (l + 1)"
proof -
  let ?k = "H - 1 - l"
  have e: "(2::nat) ^ (H - 1) = 2 ^ l * 2 ^ ?k"
    using assms by (simp flip: power_add)
  have "2 ^ l * 2 ^ ?k \<le> leaf + 2 ^ (H - 1)" using e by simp
  then show "2 ^ l \<le> bucket_spec H l leaf"
    by (simp add: bucket_spec_def less_eq_div_iff_mult_less_eq)
  have "leaf + 2 ^ (H - 1) < 2 ^ (l + 1) * 2 ^ ?k" using e assms(2) by simp
  then show "bucket_spec H l leaf < 2 ^ (l + 1)"
    by (simp add: bucket_spec_def div_less_iff_less_mult)
qed

lemma bucket_spec_lt:
  assumes "1 \<le> H" "leaf < 2 ^ (H - 1)" "l < H"
  shows "bucket_spec H l leaf < 2 ^ H"
proof -
  have "(2::nat) ^ (l + 1) \<le> 2 ^ H" using assms(3) by (intro power_increasing) simp_all
  with bucket_spec_bounds(2) [OF assms] show ?thesis by simp
qed

lemma bucket_spec_level_inj:
  assumes "1 \<le> H" "leaf < 2 ^ (H - 1)" "l < H" "l' < H"
    and "bucket_spec H l leaf = bucket_spec H l' leaf"
  shows "l = l'"
proof (rule ccontr)
  assume "l \<noteq> l'"
  then consider "l < l'" | "l' < l" by linarith
  then show False
  proof cases
    case 1
    then have "(2::nat) ^ (l + 1) \<le> 2 ^ l'" by (intro power_increasing) simp_all
    with bucket_spec_bounds(2) [OF assms(1,2,3)] bucket_spec_bounds(1) [OF assms(1,2,4)] assms(5)
    show False by simp
  next
    case 2
    then have "(2::nat) ^ (l' + 1) \<le> 2 ^ l" by (intro power_increasing) simp_all
    with bucket_spec_bounds(2) [OF assms(1,2,4)] bucket_spec_bounds(1) [OF assms(1,2,3)] assms(5)
    show False by simp
  qed
qed

lemma slot_addr_lt_blocks:
  assumes "params_ok s" "leaf < 2 ^ (height s - 1)" "l < height s" "i < Z s"
  shows "slot_addr s leaf l i < blocks s"
proof -
  have H: "1 \<le> height s" and B: "blocks s = 2 ^ height s * Z s"
    using assms(1) by (simp_all add: params_ok_def)
  have "bucket_spec (height s) l leaf < 2 ^ height s"
    using H assms by (intro bucket_spec_lt)
  then have "Suc (bucket_spec (height s) l leaf) \<le> 2 ^ height s" by simp
  then have "Suc (bucket_spec (height s) l leaf) * Z s \<le> 2 ^ height s * Z s"
    by (rule mult_le_mono1)
  moreover have "slot_addr s leaf l i < Suc (bucket_spec (height s) l leaf) * Z s"
    using assms(4) by (simp add: slot_addr_def)
  ultimately show ?thesis unfolding B by (rule less_le_trans [rotated])
qed

lemma div_slot: "j < (z::nat) \<Longrightarrow> (b * z + j) div z = b"
  by (metis add.commute div_mult_self1 div_less add.right_neutral less_nat_zero_code mult.commute)

lemma mod_slot: "j < (z::nat) \<Longrightarrow> (b * z + j) mod z = j"
  by (metis add.commute mod_mult_self1 mod_less mult.commute)

lemma slot_addr_inj:
  assumes "params_ok s" "leaf < 2 ^ (height s - 1)" "l < height s" "i < Z s" "l' < height s" "i' < Z s"
    and "slot_addr s leaf l i = slot_addr s leaf l' i'"
  shows "l = l' \<and> i = i'"
proof -
  let ?b = "bucket_spec (height s) l leaf" and ?b' = "bucket_spec (height s) l' leaf"
  have H: "1 \<le> height s" using assms(1) by (simp add: params_ok_def)
  from assms(7) have eq: "?b * Z s + i = ?b' * Z s + i'" by (simp only: slot_addr_def)
  have b: "?b = ?b'"
    using arg_cong [OF eq, of "\<lambda>a. a div Z s"] by (simp only: div_slot assms(4,6))
  have i: "i = i'"
    using arg_cong [OF eq, of "\<lambda>a. a mod Z s"] by (simp only: mod_slot assms(4,6))
  have "l = l'" using H assms(2,3,5) b by (rule bucket_spec_level_inj)
  with i show ?thesis by simp
qed

lemma wrap_small: "n < 2 ^ 31 \<Longrightarrow> wrap n = n"
  by (simp add: wrap_def)

lemma int_round_trip: "k < 2 ^ 31 \<Longrightarrow> of_int_ulong (to_int k) = k"
  by (simp add: of_int_ulong_def to_int_def Let_def)

(* upsert *)

lemma map_of_upsert: "map_of (upsert k v st) = (map_of st)(k \<mapsto> v)"
  by (induction st) (auto simp: fun_eq_iff)

lemma keys_upsert: "fst ` set (upsert k v st) = insert k (fst ` set st)"
  by (induction st) auto

lemma distinct_upsert: "distinct (map fst st) \<Longrightarrow> distinct (map fst (upsert k v st))"
proof (induction st)
  case Nil then show ?case by simp
next
  case (Cons e st)
  then show ?case using keys_upsert [of k v st] by (auto simp: image_iff)
qed

lemma distinct_read_blocks: "distinct (map fst st) \<Longrightarrow> distinct (map fst (read_blocks bs st))"
  unfolding read_blocks_def
  by (induction bs arbitrary: st) (simp_all add: read_block_def distinct_upsert)

lemma map_of_read_blocks:
  assumes "\<forall>b \<in> set bs. fst b \<noteq> ULONG_MAX \<longrightarrow> L (fst b) = Some (snd b)"
    and "\<forall>k d. map_of st k = Some d \<longrightarrow> L k = Some d"
  shows "map_of (read_blocks bs st) k =
           (if k \<in> fst ` {b \<in> set bs. fst b \<noteq> ULONG_MAX} \<or> k \<in> dom (map_of st) then L k else None)"
  using assms unfolding read_blocks_def
proof (induction bs arbitrary: st)
  case Nil
  then show ?case by (auto simp: dom_def)
next
  case (Cons b bs)
  let ?st = "read_block b st"
  have st: "\<forall>k d. map_of ?st k = Some d \<longrightarrow> L k = Some d"
    using Cons.prems by (auto simp: read_block_def map_of_upsert)
  have "map_of (foldl (\<lambda>st b. read_block b st) ?st bs) k =
          (if k \<in> fst ` {b \<in> set bs. fst b \<noteq> ULONG_MAX} \<or> k \<in> dom (map_of ?st) then L k else None)"
    using Cons.prems st by (intro Cons.IH) simp_all
  moreover have "dom (map_of ?st) = (if fst b \<noteq> ULONG_MAX then insert (fst b) (dom (map_of st)) else dom (map_of st))"
    by (simp add: read_block_def map_of_upsert)
  moreover have "fst ` {b' \<in> set (b # bs). fst b' \<noteq> ULONG_MAX} =
      (if fst b \<noteq> ULONG_MAX then insert (fst b) (fst ` {b' \<in> set bs. fst b' \<noteq> ULONG_MAX})
       else fst ` {b' \<in> set bs. fst b' \<noteq> ULONG_MAX})"
    by auto
  ultimately show ?case by (simp only: foldl_Cons) (simp split: if_splits)
qed

subsection \<open>What readPath does\<close>

lemma bind_ret_left: "bind (ret x) f = f x"
  by (simp add: bind_def ret_def)

lemma bind_ok: "m s = (Inr x, s') \<Longrightarrow> bind m f s = f x s'"
  by (simp add: bind_def)

lemma bind_apply:
  "bind m f s = (case m s of (Inl e, s') \<Rightarrow> (Inl e, s') | (Inr x, s') \<Rightarrow> f x s')"
  by (simp add: bind_def)

lemma bind_err: "m s = (Inl e, s') \<Longrightarrow> bind m f s = (Inl e, s')"
  by (simp add: bind_def)

lemma defined_Some: "defined (Some x) = ret x"
  by (simp add: defined_def)

lemma for_each_Cons_ok:
  "body x s = (Inr (), s1) \<Longrightarrow> for_each (x # xs) body s = for_each xs body s1"
  by (simp add: bind_def)

lemma read_slots:
  assumes "\<forall>a \<in> set as. a < st_capacity s"
  shows "for_each as
           (\<lambda>a. bind (storageGet a)
                  (\<lambda>(bid, data). if bid \<noteq> ULONG_MAX then stashAdd bid data else ret ())) s
         = (Inr (), s\<lparr>stash := read_blocks (map (st_mem s) as) (stash s)\<rparr>)"
  using assms
proof (induction as arbitrary: s)
  case Nil
  then show ?case by (simp add: ret_def read_blocks_def)
next
  case (Cons a as)
  let ?s1 = "s\<lparr>stash := read_block (st_mem s a) (stash s)\<rparr>"
  have step: "bind (storageGet a)
                (\<lambda>(bid, data). if bid \<noteq> ULONG_MAX then stashAdd bid data else ret ()) s
              = (Inr (), ?s1)"
    using Cons.prems
    by (cases "st_mem s a") (simp add: bind_def storageGet_def stashAdd_def ret_def read_block_def)
  have "for_each as
           (\<lambda>a. bind (storageGet a)
                  (\<lambda>(bid, data). if bid \<noteq> ULONG_MAX then stashAdd bid data else ret ())) ?s1
         = (Inr (), ?s1\<lparr>stash := read_blocks (map (st_mem ?s1) as) (stash ?s1)\<rparr>)"
    using Cons.prems by (intro Cons.IH) simp
  with step show ?case
    by (simp add: bind_def read_blocks_def)
qed


lemma for_each_map: "for_each (map f xs) body = for_each xs (\<lambda>x. body (f x))"
  by (induction xs) simp_all

lemma read_blocks_append: "read_blocks (xs @ ys) st = read_blocks ys (read_blocks xs st)"
  by (simp add: read_blocks_def)

lemma set_path_list: "set (path_list s leaf) = path_set s leaf"
  unfolding path_list_def path_set_def by auto blast

lemma for_each_cong:
  "(\<And>x. x \<in> set xs \<Longrightarrow> f x = g x) \<Longrightarrow> for_each xs f = for_each xs g"
  by (induction xs) simp_all

lemma read_levels:
  assumes "1 \<le> H" "H \<le> 31" "leaf < 2 ^ (H - 1)" "\<forall>l \<in> set ls. l < H"
    and "\<forall>l \<in> set ls. \<forall>i < Zc. bucket_spec H l leaf * Zc + i < st_capacity s \<and>
                                    bucket_spec H l leaf * Zc + i < 2 ^ 31"
  shows "for_each ls
           (\<lambda>level. bind (defined (bucketForLevelLeaf H level leaf))
              (\<lambda>bucket. for_each [0..<Zc]
                 (\<lambda>i. bind (storageGet (wrap (bucket * Zc + i)))
                    (\<lambda>(bid, data). if bid \<noteq> ULONG_MAX then stashAdd bid data else ret ())))) s
         = (Inr (), s\<lparr>stash := read_blocks
               (map (st_mem s) (concat (map (\<lambda>l. map (\<lambda>i. bucket_spec H l leaf * Zc + i) [0..<Zc]) ls)))
               (stash s)\<rparr>)"
  using assms(4,5)
proof (induction ls arbitrary: s)
  case Nil
  then show ?case by (simp add: ret_def read_blocks_def)
next
  case (Cons l ls)
  let ?as = "map (\<lambda>i. bucket_spec H l leaf * Zc + i) [0..<Zc]"
  let ?s1 = "s\<lparr>stash := read_blocks (map (st_mem s) ?as) (stash s)\<rparr>"
  have b: "bucketForLevelLeaf H l leaf = Some (bucket_spec H l leaf)"
    using assms(1-3) Cons.prems(1) by (intro bucketForLevelLeaf_spec) simp_all
  have w: "\<And>i. i < Zc \<Longrightarrow> wrap (bucket_spec H l leaf * Zc + i) = bucket_spec H l leaf * Zc + i"
    using Cons.prems(2) by (simp add: wrap_small)
  have "for_each [0..<Zc]
          (\<lambda>i. bind (storageGet (wrap (bucket_spec H l leaf * Zc + i)))
             (\<lambda>(bid, data). if bid \<noteq> ULONG_MAX then stashAdd bid data else ret ())) s
        = for_each ?as
          (\<lambda>a. bind (storageGet a)
             (\<lambda>(bid, data). if bid \<noteq> ULONG_MAX then stashAdd bid data else ret ())) s"
    unfolding for_each_map
    by (rule arg_cong [where f = "\<lambda>m. m s"], rule for_each_cong) (simp add: w)
  also have "\<dots> = (Inr (), ?s1)"
  proof (intro read_slots ballI)
    fix a assume "a \<in> set ?as"
    then obtain i where "i \<in> set [0..<Zc]" and "a = bucket_spec H l leaf * Zc + i"
      unfolding set_map by blast
    then show "a < st_capacity s" using Cons.prems(2) by simp
  qed
  finally have inner: "for_each [0..<Zc]
          (\<lambda>i. bind (storageGet (wrap (bucket_spec H l leaf * Zc + i)))
             (\<lambda>(bid, data). if bid \<noteq> ULONG_MAX then stashAdd bid data else ret ())) s
        = (Inr (), ?s1)" .
  have rest: "for_each ls
           (\<lambda>level. bind (defined (bucketForLevelLeaf H level leaf))
              (\<lambda>bucket. for_each [0..<Zc]
                 (\<lambda>i. bind (storageGet (wrap (bucket * Zc + i)))
                    (\<lambda>(bid, data). if bid \<noteq> ULONG_MAX then stashAdd bid data else ret ())))) ?s1
         = (Inr (), ?s1\<lparr>stash := read_blocks
               (map (st_mem ?s1) (concat (map (\<lambda>l. map (\<lambda>i. bucket_spec H l leaf * Zc + i) [0..<Zc]) ls)))
               (stash ?s1)\<rparr>)"
    using Cons.prems by (intro Cons.IH) simp_all
  let ?B = "\<lambda>level. bind (defined (bucketForLevelLeaf H level leaf))
              (\<lambda>bucket. for_each [0..<Zc]
                 (\<lambda>i. bind (storageGet (wrap (bucket * Zc + i)))
                    (\<lambda>(bid, data). if bid \<noteq> ULONG_MAX then stashAdd bid data else ret ())))"
  have "for_each (l # ls) ?B s = for_each ls ?B ?s1"
  proof (rule for_each_Cons_ok)
    show "?B l s = (Inr (), ?s1)"
      by (simp only: b defined_Some bind_ret_left inner)
  qed
  with rest show ?case
    by (simp add: read_blocks_append)
qed

lemma readPath_eq:
  assumes "params_ok s" "leaf < 2 ^ (height s - 1)"
  shows "readPath leaf s =
           (Inr (), s\<lparr>stash := read_blocks (map (st_mem s) (path_list s leaf)) (stash s)\<rparr>)"
proof -
  have H: "1 \<le> height s" "height s \<le> 31" and cap: "blocks s \<le> st_capacity s" "blocks s \<le> 2 ^ 31"
    using assms(1) height_le_31 by (simp_all add: params_ok_def)
  have "\<forall>l \<in> set [0..<height s]. \<forall>i < Z s.
          bucket_spec (height s) l leaf * Z s + i < st_capacity s \<and>
          bucket_spec (height s) l leaf * Z s + i < 2 ^ 31"
    using slot_addr_lt_blocks [OF assms] cap by (fastforce simp: slot_addr_def)
  from read_levels [OF H assms(2) _ this] show ?thesis
    by (simp add: readPath_def path_list_def slot_addr_def)
qed

subsection \<open>What writePath does\<close>

lemma canInclude_spec:
  assumes "1 \<le> H" "H \<le> 31" "leafA < 2 ^ (H - 1)" "leafB < 2 ^ (H - 1)" "l < H"
  shows "canInclude H leafA leafB l = Some (bucket_spec H l leafA = bucket_spec H l leafB)"
  using assms by (simp add: canInclude_def bucketForLevelLeaf_spec)

lemma pickEntries_spec:
  assumes "1 \<le> height s" "height s \<le> 31" "leaf < 2 ^ (height s - 1)" "l < height s"
    and "\<forall>e \<in> set cs. pmap s (fst e) < 2 ^ (height s - 1)"
    and "length acc < Z s"
  shows "\<exists>ins. pickEntries s leaf l cs acc = Some ins \<and> length ins \<le> Z s \<and>
           set ins \<subseteq> set acc \<union> {e \<in> set cs. bucket_spec (height s) l (pmap s (fst e))
                                                  = bucket_spec (height s) l leaf}"
  using assms(5,6)
proof (induction cs arbitrary: acc)
  case Nil
  then show ?case by simp
next
  case (Cons e cs)
  have ci: "canInclude (height s) (pmap s (fst e)) leaf l =
        Some (bucket_spec (height s) l (pmap s (fst e)) = bucket_spec (height s) l leaf)"
    using assms(1-4) Cons.prems(1) by (intro canInclude_spec) simp_all
  show ?case
  proof (cases "bucket_spec (height s) l (pmap s (fst e)) = bucket_spec (height s) l leaf")
    case False
    then show ?thesis using Cons.IH [of acc] Cons.prems ci by auto
  next
    case True
    show ?thesis
    proof (cases "length (acc @ [e]) = Z s")
      case full: True
      then show ?thesis using ci True by auto
    next
      case notfull: False
      then have "length (acc @ [e]) < Z s" using Cons.prems(2) by simp
      from Cons.IH [OF _ this] Cons.prems(1) show ?thesis using ci True notfull by auto
    qed
  qed
qed

lemma writeBucket_spec:
  assumes "\<forall>i \<in> set is. bucket * Z s + i < st_capacity s \<and> bucket * Z s + i < 2 ^ 31"
    and "\<forall>e \<in> set toInsert. length (snd e) = st_payload s"
    and "dataSize s = st_payload s" and "distinct is"
  shows "\<exists>s'. writeBucket bucket is toInsert draw s = (Inr (), s') \<and>
              s' = s\<lparr>st_mem := st_mem s'\<rparr> \<and>
              (\<forall>a. a \<notin> (\<lambda>i. bucket * Z s + i) ` set is \<longrightarrow> st_mem s' a = st_mem s a) \<and>
              (\<forall>i \<in> set is. st_mem s' (bucket * Z s + i) \<in> set toInsert \<or>
                             fst (st_mem s' (bucket * Z s + i)) = ULONG_MAX) \<and>
              (length toInsert \<le> length is \<longrightarrow>
                 (\<forall>e \<in> set toInsert. \<exists>i \<in> set is. st_mem s' (bucket * Z s + i) = e))"
  using assms
proof (induction "is" arbitrary: toInsert s)
  case Nil
  then show ?case by (simp add: ret_def)
next
  case (Cons i "is")
  let ?a = "bucket * Z s + i"
  let ?b = "if toInsert \<noteq> [] then last toInsert
            else (ULONG_MAX, getRandomBlock (dataSize s) (draw ?a))"
  let ?rest = "if toInsert \<noteq> [] then butlast toInsert else toInsert"
  let ?s1 = "s\<lparr>st_mem := (st_mem s)(?a := ?b)\<rparr>"
  have w: "wrap ?a = ?a" using Cons.prems(1) by (simp add: wrap_small)
  have len: "length (snd ?b) = st_payload s"
    using Cons.prems(2,3) by (auto simp: getRandomBlock_def)
  have set1: "storageSet ?a ?b s = (Inr (), ?s1)"
    using Cons.prems(1) len by (simp add: storageSet_def)
  have step: "writeBucket bucket (i # is) toInsert draw s = writeBucket bucket is ?rest draw ?s1"
  proof (cases "toInsert = []")
    case True
    with set1 show ?thesis by (simp add: w Let_def bind_def)
  next
    case False
    with set1 show ?thesis by (simp add: w Let_def bind_def)
  qed
  have "\<exists>s'. writeBucket bucket is ?rest draw ?s1 = (Inr (), s') \<and>
              s' = ?s1\<lparr>st_mem := st_mem s'\<rparr> \<and>
              (\<forall>a. a \<notin> (\<lambda>i. bucket * Z ?s1 + i) ` set is \<longrightarrow> st_mem s' a = st_mem ?s1 a) \<and>
              (\<forall>i \<in> set is. st_mem s' (bucket * Z ?s1 + i) \<in> set ?rest \<or>
                             fst (st_mem s' (bucket * Z ?s1 + i)) = ULONG_MAX) \<and>
              (length ?rest \<le> length is \<longrightarrow>
                 (\<forall>e \<in> set ?rest. \<exists>i \<in> set is. st_mem s' (bucket * Z ?s1 + i) = e))"
    using Cons.prems by (intro Cons.IH) (auto dest: in_set_butlastD)
  then obtain s' where s': "writeBucket bucket is ?rest draw ?s1 = (Inr (), s')"
      "s' = ?s1\<lparr>st_mem := st_mem s'\<rparr>"
      "\<forall>a. a \<notin> (\<lambda>i. bucket * Z s + i) ` set is \<longrightarrow> st_mem s' a = st_mem ?s1 a"
      "\<forall>i \<in> set is. st_mem s' (bucket * Z s + i) \<in> set ?rest \<or>
                             fst (st_mem s' (bucket * Z s + i)) = ULONG_MAX"
      "length ?rest \<le> length is \<longrightarrow>
                 (\<forall>e \<in> set ?rest. \<exists>i \<in> set is. st_mem s' (bucket * Z s + i) = e)"
    by auto
  have notin: "?a \<notin> (\<lambda>i. bucket * Z s + i) ` set is" using Cons.prems(4) by auto
  then have ai: "st_mem s' ?a = ?b" using s'(3) by simp
  have frame: "s' = s\<lparr>st_mem := st_mem s'\<rparr>" by (subst s'(2)) simp
  have other: "\<forall>a. a \<notin> (\<lambda>i. bucket * Z s + i) ` set (i # is) \<longrightarrow> st_mem s' a = st_mem s a"
    using s'(3) by auto
  have content: "\<forall>j \<in> set (i # is). st_mem s' (bucket * Z s + j) \<in> set toInsert \<or>
                             fst (st_mem s' (bucket * Z s + j)) = ULONG_MAX"
    using s'(4) ai by (auto dest: in_set_butlastD split: if_splits)
  have placed: "length toInsert \<le> length (i # is) \<longrightarrow>
                 (\<forall>e \<in> set toInsert. \<exists>j \<in> set (i # is). st_mem s' (bucket * Z s + j) = e)"
  proof (intro impI ballI)
    fix e assume l: "length toInsert \<le> length (i # is)" and e: "e \<in> set toInsert"
    then have ne: "toInsert \<noteq> []" by auto
    then have "e = last toInsert \<or> e \<in> set (butlast toInsert)"
      using e by (metis append_butlast_last_id in_set_conv_decomp set_ConsD rotate1.simps(2) set_rotate1)
    then show "\<exists>j \<in> set (i # is). st_mem s' (bucket * Z s + j) = e"
    proof
      assume "e = last toInsert"
      then show ?thesis using ai ne by auto
    next
      assume "e \<in> set (butlast toInsert)"
      moreover have "length (butlast toInsert) \<le> length is" using l by simp
      ultimately show ?thesis using s'(5) ne by auto
    qed
  qed
  from step s'(1) frame other content placed show ?case by auto
qed


lemma path_set_slots_of: "path_set s leaf = slots_of s leaf {..<height s}"
  by (auto simp: path_set_def slots_of_def)

lemma slots_of_frame [simp]: "slots_of (s\<lparr>st_mem := m\<rparr>) leaf Ls = slots_of s leaf Ls"
  by (simp add: slots_of_def slot_addr_def)

lemma path_set_frame [simp]: "path_set (s\<lparr>st_mem := m\<rparr>) leaf = path_set s leaf"
  by (simp add: path_set_def slot_addr_def)

lemma params_ok_frame [simp]: "params_ok (s\<lparr>st_mem := m\<rparr>) = params_ok s"
  by (simp add: params_ok_def)

lemma keys_round_trip:
  "\<forall>e \<in> set ins. fst e < 2 ^ 31 \<Longrightarrow> map of_int_ulong (map (\<lambda>e. to_int (fst e)) ins) = map fst ins"
  by (induction ins) (simp_all add: int_round_trip)

lemma distinct_keys_eq:
  "distinct (map fst xs) \<Longrightarrow> e \<in> set xs \<Longrightarrow> e' \<in> set xs \<Longrightarrow> fst e = fst e' \<Longrightarrow> e = e'"
  by (metis eq_key_imp_eq_value prod.collapse)

lemma interval_ex: "((b::nat) \<le> a \<and> a < z + b) = (\<exists>i<z. a = b + i)"
  by presburger

lemma img_slots:
  "(\<lambda>i. bucket_spec (height s) l leaf * Z s + i) ` set [0..<Z s] = slots_of s leaf {l}"
proof (rule set_eqI)
  fix a
  show "a \<in> (\<lambda>i. bucket_spec (height s) l leaf * Z s + i) ` set [0..<Z s] \<longleftrightarrow> a \<in> slots_of s leaf {l}"
    by (simp add: slots_of_def slot_addr_def image_iff Bex_def interval_ex) 
qed

lemma writeBucket_level:
  assumes "params_ok s" and "leaf < 2 ^ (height s - 1)" and "l < height s"
    and "length ins \<le> Z s" and "\<forall>e \<in> set ins. length (snd e) = st_payload s"
  shows "\<exists>s1. writeBucket (bucket_spec (height s) l leaf) [0..<Z s] ins draw s = (Inr (), s1) \<and>
              s1 = s\<lparr>st_mem := st_mem s1\<rparr> \<and>
              (\<forall>a. a \<notin> slots_of s leaf {l} \<longrightarrow> st_mem s1 a = st_mem s a) \<and>
              (\<forall>i < Z s. st_mem s1 (slot_addr s leaf l i) \<in> set ins \<or>
                          fst (st_mem s1 (slot_addr s leaf l i)) = ULONG_MAX) \<and>
              (\<forall>e \<in> set ins. \<exists>i < Z s. st_mem s1 (slot_addr s leaf l i) = e)"
proof -
  let ?b = "bucket_spec (height s) l leaf"
  have ds: "dataSize s = st_payload s" and cap: "blocks s \<le> st_capacity s" "blocks s \<le> 2 ^ 31"
    using assms(1) by (simp_all add: params_ok_def)
  have slot_ok: "\<forall>i \<in> set [0..<Z s]. ?b * Z s + i < st_capacity s \<and> ?b * Z s + i < 2 ^ 31"
  proof
    fix i assume "i \<in> set [0..<Z s]"
    then have "i < Z s" by simp
    from slot_addr_lt_blocks [OF assms(1,2,3) this] cap
    show "?b * Z s + i < st_capacity s \<and> ?b * Z s + i < 2 ^ 31"
      unfolding slot_addr_def by linarith
  qed
  have "distinct [0..<Z s]" by simp
  from writeBucket_spec [OF slot_ok assms(5) ds this, of draw]
  obtain s1 where a: "writeBucket ?b [0..<Z s] ins draw s = (Inr (), s1)"
      "s1 = s\<lparr>st_mem := st_mem s1\<rparr>"
      "\<forall>a. a \<notin> (\<lambda>i. ?b * Z s + i) ` set [0..<Z s] \<longrightarrow> st_mem s1 a = st_mem s a"
      "\<forall>i \<in> set [0..<Z s]. st_mem s1 (?b * Z s + i) \<in> set ins \<or>
                             fst (st_mem s1 (?b * Z s + i)) = ULONG_MAX"
      "length ins \<le> length [0..<Z s] \<longrightarrow>
                 (\<forall>e \<in> set ins. \<exists>i \<in> set [0..<Z s]. st_mem s1 (?b * Z s + i) = e)"
    by blast
  have c3: "\<forall>a. a \<notin> slots_of s leaf {l} \<longrightarrow> st_mem s1 a = st_mem s a"
    using a(3) unfolding img_slots .
  have c4: "\<forall>i < Z s. st_mem s1 (slot_addr s leaf l i) \<in> set ins \<or>
                  fst (st_mem s1 (slot_addr s leaf l i)) = ULONG_MAX"
    using a(4) by (simp add: slot_addr_def)
  have c5: "\<forall>e\<in>set ins. \<exists>i<Z s. st_mem s1 (slot_addr s leaf l i) = e"
    using a(5) assms(4) by (simp add: slot_addr_def Bex_def)
  from a(1,2) c3 c4 c5 show ?thesis by blast
qed

lemma writeLevels_spec:
  assumes "params_ok s" and "leaf < 2 ^ (height s - 1)"
    and "distinct ls" and "\<forall>l \<in> set ls. l < height s"
    and "distinct (map fst cs)"
    and "\<forall>e \<in> set cs. fst e < 2 ^ 31 \<and> pmap s (fst e) < 2 ^ (height s - 1) \<and>
                        length (snd e) = st_payload s"
  shows "\<exists>td' s'. writeLevels leaf ls cs td draw s = (Inr (td @ td'), s') \<and>
           s' = s\<lparr>st_mem := st_mem s'\<rparr> \<and>
           (\<forall>a. a \<notin> slots_of s leaf (set ls) \<longrightarrow> st_mem s' a = st_mem s a) \<and>
           (\<forall>a \<in> slots_of s leaf (set ls). fst (st_mem s' a) = ULONG_MAX \<or>
                (st_mem s' a \<in> set cs \<and> a \<in> path_set s (pmap s (fst (st_mem s' a))))) \<and>
           of_int_ulong ` set td' \<subseteq> fst ` set cs \<and>
           (\<forall>e \<in> set cs. fst e \<in> of_int_ulong ` set td' \<longrightarrow>
                (\<exists>a \<in> slots_of s leaf (set ls). st_mem s' a = e))"
  using assms
proof (induction ls arbitrary: cs td s)
  case Nil
  then show ?case by (simp add: ret_def slots_of_def)
next
  case (Cons l ls)
  let ?H = "height s"
  let ?b = "bucket_spec ?H l leaf"
  have H: "1 \<le> ?H" "?H \<le> 31" and Zpos: "0 < Z s" and ds: "dataSize s = st_payload s"
    and cap: "blocks s \<le> st_capacity s" "blocks s \<le> 2 ^ 31"
    using Cons.prems(1) height_le_31 by (simp_all add: params_ok_def)
  have l: "l < ?H" "l \<notin> set ls" using Cons.prems(3,4) by simp_all
  \<comment> \<open>the entries picked for this level\<close>
  have "\<exists>ins. pickEntries s leaf l cs [] = Some ins \<and> length ins \<le> Z s \<and>
           set ins \<subseteq> set [] \<union> {e \<in> set cs. bucket_spec ?H l (pmap s (fst e)) = ?b}"
    using H Cons.prems(2) l(1) Cons.prems(6) Zpos by (intro pickEntries_spec) simp_all
  then obtain ins where pick: "pickEntries s leaf l cs [] = Some ins" and len: "length ins \<le> Z s"
    and sub: "set ins \<subseteq> {e \<in> set cs. bucket_spec ?H l (pmap s (fst e)) = ?b}"
    by auto
  let ?tdl = "map (\<lambda>e. to_int (fst e)) ins"
  let ?cs' = "filter (\<lambda>e. fst e \<notin> set (map of_int_ulong ?tdl)) cs"
  have keys: "map of_int_ulong ?tdl = map fst ins"
    using sub Cons.prems(6) by (intro keys_round_trip) auto
  have b: "bucketForLevelLeaf ?H l leaf = Some ?b"
    using H Cons.prems(2) l(1) by (intro bucketForLevelLeaf_spec)
  \<comment> \<open>the bucket of this level is written\<close>
  have "\<forall>e \<in> set ins. length (snd e) = st_payload s"
    using sub Cons.prems(6) by blast
  from writeBucket_level [OF Cons.prems(1,2) l(1) len this, of draw]
  obtain s1 where wb: "writeBucket ?b [0..<Z s] ins draw s = (Inr (), s1)"
    and frame1: "s1 = s\<lparr>st_mem := st_mem s1\<rparr>"
    and other1: "\<forall>a. a \<notin> slots_of s leaf {l} \<longrightarrow> st_mem s1 a = st_mem s a"
    and content1: "\<forall>i < Z s. st_mem s1 (slot_addr s leaf l i) \<in> set ins \<or>
                             fst (st_mem s1 (slot_addr s leaf l i)) = ULONG_MAX"
    and placed1: "\<forall>e \<in> set ins. \<exists>i < Z s. st_mem s1 (slot_addr s leaf l i) = e"
    by blast
  have wb_bind: "\<And>f. bind (writeBucket ?b [0..<Z s] ins draw) f s = f () s1"
    using wb by (simp add: bind_def)
  have step: "writeLevels leaf (l # ls) cs td draw s = writeLevels leaf ls ?cs' (td @ ?tdl) draw s1"
    by (simp add: pick b defined_Some bind_ret_left wb_bind Let_def image_image)
  \<comment> \<open>the remaining levels\<close>
  have fr: "height s1 = height s" "Z s1 = Z s" "pmap s1 = pmap s" "st_payload s1 = st_payload s"
    by (subst frame1, simp)+
  have p1: "params_ok s1" by (subst frame1) (simp add: Cons.prems(1))
  have i1: "leaf < 2 ^ (height s1 - 1)" using Cons.prems(2) by (simp add: fr)
  have i2: "distinct ls" using Cons.prems(3) by simp
  have i3: "\<forall>l \<in> set ls. l < height s1" using Cons.prems(4) by (simp add: fr)
  have i4: "distinct (map fst ?cs')" using Cons.prems(5) by (rule distinct_map_filter)
  have i5: "\<forall>e \<in> set ?cs'. fst e < 2 ^ 31 \<and> pmap s1 (fst e) < 2 ^ (height s1 - 1) \<and>
                        length (snd e) = st_payload s1"
    using Cons.prems(6) by (simp add: fr)
  note IH = Cons.IH [where s = s1 and cs = ?cs' and td = "td @ ?tdl", OF p1 i1 i2 i3 i4 i5]
  from IH obtain td' s' where all2:
      "writeLevels leaf ls ?cs' (td @ ?tdl) draw s1 = (Inr ((td @ ?tdl) @ td'), s') \<and>
       s' = s1\<lparr>st_mem := st_mem s'\<rparr> \<and>
       (\<forall>a. a \<notin> slots_of s1 leaf (set ls) \<longrightarrow> st_mem s' a = st_mem s1 a) \<and>
       (\<forall>a \<in> slots_of s1 leaf (set ls). fst (st_mem s' a) = ULONG_MAX \<or>
                (st_mem s' a \<in> set ?cs' \<and> a \<in> path_set s1 (pmap s1 (fst (st_mem s' a))))) \<and>
       of_int_ulong ` set td' \<subseteq> fst ` set ?cs' \<and>
       (\<forall>e \<in> set ?cs'. fst e \<in> of_int_ulong ` set td' \<longrightarrow>
                (\<exists>a \<in> slots_of s1 leaf (set ls). st_mem s' a = e))"
    by (elim exE)
  note rest = all2 [THEN conjunct1]
  note frame2 = all2 [THEN conjunct2, THEN conjunct1]
  note other2 = all2 [THEN conjunct2, THEN conjunct2, THEN conjunct1]
  note content2 = all2 [THEN conjunct2, THEN conjunct2, THEN conjunct2, THEN conjunct1]
  note td2 = all2 [THEN conjunct2, THEN conjunct2, THEN conjunct2, THEN conjunct2, THEN conjunct1]
  note placed2 = all2 [THEN conjunct2, THEN conjunct2, THEN conjunct2, THEN conjunct2, THEN conjunct2]
  have sl1: "slots_of s1 leaf (set ls) = slots_of s leaf (set ls)"
    and ps1: "\<And>x. path_set s1 x = path_set s x"
    by (subst frame1, simp)+
  \<comment> \<open>the slots of this level are not among those of the other levels\<close>
  have disj: "\<And>i. i < Z s \<Longrightarrow> slot_addr s leaf l i \<notin> slots_of s leaf (set ls)"
  proof
    fix i assume i: "i < Z s" and "slot_addr s leaf l i \<in> slots_of s leaf (set ls)"
    then obtain l' i' where l': "l' \<in> set ls" "i' < Z s" "slot_addr s leaf l i = slot_addr s leaf l' i'"
      by (auto simp: slots_of_def)
    then have "l = l'"
      using slot_addr_inj [OF Cons.prems(1,2) l(1) i _ l'(2) l'(3)] Cons.prems(4) by simp
    with l' l(2) show False by simp
  qed
  have split: "slots_of s leaf (insert l (set ls)) = slots_of s leaf {l} \<union> slots_of s leaf (set ls)"
    by (auto simp: slots_of_def)
  have lvl: "slots_of s leaf {l} = {a. \<exists>i < Z s. a = slot_addr s leaf l i}"
    by (auto simp: slots_of_def)
  \<comment> \<open>the conclusion, part by part\<close>
  have c1: "s' = s\<lparr>st_mem := st_mem s'\<rparr>"
    by (subst frame2, subst frame1) simp
  have c2: "\<forall>a. a \<notin> slots_of s leaf (set (l # ls)) \<longrightarrow> st_mem s' a = st_mem s a"
    using other1 other2 by (simp add: split sl1)
  have c3: "\<forall>a \<in> slots_of s leaf (set (l # ls)). fst (st_mem s' a) = ULONG_MAX \<or>
                (st_mem s' a \<in> set cs \<and> a \<in> path_set s (pmap s (fst (st_mem s' a))))"
  proof
    fix a assume a: "a \<in> slots_of s leaf (set (l # ls))"
    show "fst (st_mem s' a) = ULONG_MAX \<or>
                (st_mem s' a \<in> set cs \<and> a \<in> path_set s (pmap s (fst (st_mem s' a))))"
    proof (cases "a \<in> slots_of s leaf (set ls)")
      case True
      then show ?thesis using content2 by (auto simp: sl1 ps1 fr)
    next
      case False
      with a obtain i where i: "i < Z s" "a = slot_addr s leaf l i" by (auto simp: split lvl)
      from False other2 have same: "st_mem s' a = st_mem s1 a" by (simp add: sl1)
      from content1 i consider "st_mem s1 a \<in> set ins" | "fst (st_mem s1 a) = ULONG_MAX" by auto
      then show ?thesis
      proof cases
        case 1
        with sub have e: "st_mem s1 a \<in> set cs"
          and el: "bucket_spec ?H l (pmap s (fst (st_mem s1 a))) = ?b" by auto
        have "a = slot_addr s (pmap s (fst (st_mem s1 a))) l i"
          using i(2) el by (simp add: slot_addr_def)
        then have "a \<in> path_set s (pmap s (fst (st_mem s1 a)))"
          using l(1) i(1) by (auto simp: path_set_def)
        with e same show ?thesis by simp
      next
        case 2
        with same show ?thesis by simp
      qed
    qed
  qed
  have c4: "of_int_ulong ` set (?tdl @ td') \<subseteq> fst ` set cs"
  proof -
    have ki: "of_int_ulong ` set ?tdl = fst ` set ins" using keys by (metis set_map)
    have A: "fst ` set ins \<subseteq> fst ` set cs" using sub by auto
    have B: "of_int_ulong ` set td' \<subseteq> fst ` set cs" using td2 by auto
    show ?thesis by (simp only: set_append image_Un ki Un_subset_iff A B)
  qed
  have c5: "\<forall>e \<in> set cs. fst e \<in> of_int_ulong ` set (?tdl @ td') \<longrightarrow>
                (\<exists>a \<in> slots_of s leaf (set (l # ls)). st_mem s' a = e)"
  proof (intro ballI impI)
    fix e assume e: "e \<in> set cs" and k: "fst e \<in> of_int_ulong ` set (?tdl @ td')"
    have ki: "of_int_ulong ` set ?tdl = fst ` set ins" using keys by (metis set_map)
    show "\<exists>a \<in> slots_of s leaf (set (l # ls)). st_mem s' a = e"
    proof (cases "fst e \<in> fst ` set ins")
      case True
      then obtain e' where e': "e' \<in> set ins" "fst e' = fst e" by auto
      with sub have "e' \<in> set cs" by auto
      with e e'(2) Cons.prems(5) have "e' = e" by (intro distinct_keys_eq [of cs]) simp_all
      with e'(1) placed1 obtain i where i: "i < Z s" "st_mem s1 (slot_addr s leaf l i) = e" by auto
      have "st_mem s' (slot_addr s leaf l i) = e"
        using other2 disj [OF i(1)] i(2) by (simp add: sl1)
      moreover have "slot_addr s leaf l i \<in> slots_of s leaf (set (l # ls))"
        using i(1) by (auto simp: slots_of_def)
      ultimately show ?thesis by blast
    next
      case False
      from k have "fst e \<in> of_int_ulong ` set ?tdl \<or> fst e \<in> of_int_ulong ` set td'"
        by (simp only: set_append image_Un Un_iff)
      with False have k': "fst e \<in> of_int_ulong ` set td'" unfolding ki by blast
      have "fst e \<notin> set (map of_int_ulong ?tdl)" using False unfolding keys by simp
      with e have "e \<in> set ?cs'" by (simp only: set_filter mem_Collect_eq simp_thms)
      from placed2 [rule_format, OF this k'] 
      obtain a where "a \<in> slots_of s leaf (set ls)" "st_mem s' a = e"
        unfolding sl1 by blast
      then show ?thesis by (auto simp: split)
    qed
  qed
  from step rest have "writeLevels leaf (l # ls) cs td draw s = (Inr (td @ (?tdl @ td')), s')"
    by simp
  with c1 c2 c3 c4 c5 show ?case by blast
qed

lemma levelsDown_eq:
  assumes "1 \<le> h" "h \<le> 31"
  shows "levelsDown h = rev [0..<h]"
proof -
  from assms(1) obtain k where k: "h = Suc k" by (cases h) simp_all
  with assms(2) have "k < 31" by simp
  then show ?thesis unfolding k by (simp add: levelsDown_def int_defs Let_def)
qed

lemma remove_all:
  "for_each td (\<lambda>removed. stashRemove (of_int_ulong removed)) s =
     (Inr (), s\<lparr>stash := filter (\<lambda>e. fst e \<notin> of_int_ulong ` set td) (stash s)\<rparr>)"
proof (induction td arbitrary: s)
  case Nil
  then show ?case by (simp add: ret_def)
next
  case (Cons r td)
  have "for_each (r # td) (\<lambda>removed. stashRemove (of_int_ulong removed)) s =
        for_each td (\<lambda>removed. stashRemove (of_int_ulong removed))
          (s\<lparr>stash := filter (\<lambda>e. fst e \<noteq> of_int_ulong r) (stash s)\<rparr>)"
    by (simp add: bind_def stashRemove_def)
  also have "\<dots> = (Inr (), s\<lparr>stash := filter (\<lambda>e. fst e \<notin> of_int_ulong ` set (r # td)) (stash s)\<rparr>)"
    by (subst Cons.IH) (simp add: conj_commute)
  finally show ?case .
qed

lemma writePath_spec:
  assumes "params_ok s" and "leaf < 2 ^ (height s - 1)"
    and "distinct (map fst (stash s))"
    and "\<forall>e \<in> set (stash s). fst e < 2 ^ 31 \<and> pmap s (fst e) < 2 ^ (height s - 1) \<and>
                        length (snd e) = st_payload s"
  shows "\<exists>s'. writePath leaf draw s = (Inr (), s') \<and>
           s' = s\<lparr>st_mem := st_mem s', stash := stash s'\<rparr> \<and>
           (\<forall>a. a \<notin> path_set s leaf \<longrightarrow> st_mem s' a = st_mem s a) \<and>
           (\<forall>a \<in> path_set s leaf. fst (st_mem s' a) = ULONG_MAX \<or>
                (st_mem s' a \<in> set (stash s) \<and> a \<in> path_set s (pmap s (fst (st_mem s' a))))) \<and>
           distinct (map fst (stash s')) \<and> set (stash s') \<subseteq> set (stash s) \<and>
           (\<forall>e \<in> set (stash s). e \<in> set (stash s') \<or> (\<exists>a \<in> path_set s leaf. st_mem s' a = e))"
proof -
  let ?ls = "rev [0..<height s]"
  have H: "1 \<le> height s" "height s \<le> 31"
    using assms(1) height_le_31 by (simp_all add: params_ok_def)
  have ld: "levelsDown (height s) = ?ls" using H by (rule levelsDown_eq)
  have d: "distinct ?ls" by simp
  have lv: "\<forall>l \<in> set ?ls. l < height s" by simp
  have ps: "slots_of s leaf (set ?ls) = path_set s leaf"
    by (simp add: path_set_slots_of lessThan_atLeast0)
  from writeLevels_spec [OF assms(1,2) d lv assms(3,4), of "[]" draw]
  obtain td s1 where all1:
      "writeLevels leaf ?ls (stash s) [] draw s = (Inr ([] @ td), s1) \<and>
       s1 = s\<lparr>st_mem := st_mem s1\<rparr> \<and>
       (\<forall>a. a \<notin> slots_of s leaf (set ?ls) \<longrightarrow> st_mem s1 a = st_mem s a) \<and>
       (\<forall>a \<in> slots_of s leaf (set ?ls). fst (st_mem s1 a) = ULONG_MAX \<or>
            (st_mem s1 a \<in> set (stash s) \<and> a \<in> path_set s (pmap s (fst (st_mem s1 a))))) \<and>
       of_int_ulong ` set td \<subseteq> fst ` set (stash s) \<and>
       (\<forall>e \<in> set (stash s). fst e \<in> of_int_ulong ` set td \<longrightarrow>
            (\<exists>a \<in> slots_of s leaf (set ?ls). st_mem s1 a = e))"
    by (elim exE)
  note run = all1 [THEN conjunct1]
  note frame = all1 [THEN conjunct2, THEN conjunct1]
  note other = all1 [THEN conjunct2, THEN conjunct2, THEN conjunct1, unfolded ps]
  note content = all1 [THEN conjunct2, THEN conjunct2, THEN conjunct2, THEN conjunct1, unfolded ps]
  note placed = all1 [THEN conjunct2, THEN conjunct2, THEN conjunct2, THEN conjunct2, THEN conjunct2,
      unfolded ps]
  let ?keep = "filter (\<lambda>e. fst e \<notin> of_int_ulong ` set td) (stash s)"
  let ?s' = "s1\<lparr>stash := ?keep\<rparr>"
  have st1: "stash s1 = stash s" by (subst frame) simp
  have "writePath leaf draw s =
          for_each td (\<lambda>removed. stashRemove (of_int_ulong removed)) s1"
    using run by (simp add: writePath_def bind_def stashGetAll_def ld)
  then have c0: "writePath leaf draw s = (Inr (), ?s')"
    by (simp add: remove_all st1)
  have c1: "?s' = s\<lparr>st_mem := st_mem ?s', stash := stash ?s'\<rparr>"
    by (subst frame) simp
  have c2: "\<forall>a. a \<notin> path_set s leaf \<longrightarrow> st_mem ?s' a = st_mem s a"
    using other by simp
  have c3: "\<forall>a \<in> path_set s leaf. fst (st_mem ?s' a) = ULONG_MAX \<or>
                (st_mem ?s' a \<in> set (stash s) \<and> a \<in> path_set s (pmap s (fst (st_mem ?s' a))))"
    using content by simp
  have c4: "distinct (map fst (stash ?s'))"
    using assms(3) by (simp add: distinct_map_filter)
  have c5: "set (stash ?s') \<subseteq> set (stash s)" by auto
  have c6: "\<forall>e \<in> set (stash s). e \<in> set (stash ?s') \<or> (\<exists>a \<in> path_set s leaf. st_mem ?s' a = e)"
  proof
    fix e assume e: "e \<in> set (stash s)"
    show "e \<in> set (stash ?s') \<or> (\<exists>a \<in> path_set s leaf. st_mem ?s' a = e)"
    proof (cases "fst e \<in> of_int_ulong ` set td")
      case True
      from placed [rule_format, OF e True] show ?thesis by simp
    next
      case False
      with e show ?thesis by simp
    qed
  qed
  from c0 c1 c2 c3 c4 c5 c6 show ?thesis by blast
qed

subsection \<open>The invariant through an access\<close>

lemma randomLeaf_eq:
  assumes "params_ok s"
  shows "randomLeaf d s = (Inr (d mod 2 ^ (height s - 1)), s)"
proof -
  have "1 \<le> height s" "height s \<le> 31"
    using assms height_le_31 by (simp_all add: params_ok_def)
  then obtain k where k: "height s = Suc k" "k < 31" by (cases "height s") simp_all
  have "(2::int) ^ k < 2 ^ 64" using k(2) by (intro power_strict_increasing) simp_all
  then have "of_int_ulong (2 ^ k) = 2 ^ k"
    by (simp add: of_int_ulong_def nat_power_eq)
  then show ?thesis using k
    by (simp add: randomLeaf_def act_defs shl_int_1_def ulong_minus_def getRandomULong_def)
qed

lemma path_set_cong:
  "height s' = height s \<Longrightarrow> Z s' = Z s \<Longrightarrow> path_set s' leaf = path_set s leaf"
  by (simp add: path_set_def slot_addr_def)

lemma path_list_cong:
  "height s' = height s \<Longrightarrow> Z s' = Z s \<Longrightarrow> path_list s' leaf = path_list s leaf"
  by (simp add: path_list_def slot_addr_def)

lemma params_ok_cong:
  "height s' = height s \<Longrightarrow> Z s' = Z s \<Longrightarrow> blocks s' = blocks s \<Longrightarrow>
   st_capacity s' = st_capacity s \<Longrightarrow> st_payload s' = st_payload s \<Longrightarrow>
   dataSize s' = dataSize s \<Longrightarrow> params_ok s' = params_ok s"
  by (simp add: params_ok_def)

lemma path_set_lt_blocks:
  assumes "params_ok s" "leaf < 2 ^ (height s - 1)" "a \<in> path_set s leaf"
  shows "a < blocks s"
  using assms slot_addr_lt_blocks by (auto simp: path_set_def)

lemma map_of_distinct_mem:
  "distinct (map fst xs) \<Longrightarrow> (map_of xs k = Some d) = ((k, d) \<in> set xs)"
  by simp

lemma writePath_inv:
  assumes M1: "params_ok s" "distinct (map fst (stash s))"
      "\<forall>b < blocks s. pmap s b < 2 ^ (height s - 1)"
    and P: "P < 2 ^ (height s - 1)"
    and M2: "\<forall>a < blocks s. a \<notin> path_set s P \<longrightarrow> fst (st_mem s a) \<noteq> ULONG_MAX \<longrightarrow>
              L (fst (st_mem s a)) = Some (snd (st_mem s a)) \<and>
              a \<in> path_set s (pmap s (fst (st_mem s a)))"
    and M3: "\<forall>k d. map_of (stash s) k = Some d \<longrightarrow> L k = Some d"
    and M4: "\<forall>k d. L k = Some d \<longrightarrow> k < blocks s \<and> length d = dataSize s \<and>
               (map_of (stash s) k = Some d \<or>
                (\<exists>a \<in> path_set s (pmap s k). a \<notin> path_set s P \<and> st_mem s a = (k, d)))"
  shows "\<exists>s'. writePath P draw s = (Inr (), s') \<and> oram_inv s' L \<and>
              s' = s\<lparr>st_mem := st_mem s', stash := stash s'\<rparr>"
proof -
  have par: "blocks s \<le> 2 ^ 31" "st_payload s = dataSize s"
    using M1(1) by (simp_all add: params_ok_def)
  have cur: "\<And>e. e \<in> set (stash s) \<Longrightarrow> L (fst e) = Some (snd e)"
  proof -
    fix e assume "e \<in> set (stash s)"
    then have "map_of (stash s) (fst e) = Some (snd e)" using M1(2) by simp
    with M3 show "L (fst e) = Some (snd e)" by blast
  qed
  have ent: "\<forall>e \<in> set (stash s). fst e < 2 ^ 31 \<and> pmap s (fst e) < 2 ^ (height s - 1) \<and>
                        length (snd e) = st_payload s"
  proof
    fix e assume "e \<in> set (stash s)"
    from cur [OF this] M4 have "fst e < blocks s" "length (snd e) = dataSize s" by blast+
    with M1(3) par show "fst e < 2 ^ 31 \<and> pmap s (fst e) < 2 ^ (height s - 1) \<and>
                        length (snd e) = st_payload s" by simp
  qed
  from writePath_spec [OF M1(1) P M1(2) ent, of draw]
  obtain s' where all1: "writePath P draw s = (Inr (), s') \<and>
           s' = s\<lparr>st_mem := st_mem s', stash := stash s'\<rparr> \<and>
           (\<forall>a. a \<notin> path_set s P \<longrightarrow> st_mem s' a = st_mem s a) \<and>
           (\<forall>a \<in> path_set s P. fst (st_mem s' a) = ULONG_MAX \<or>
                (st_mem s' a \<in> set (stash s) \<and> a \<in> path_set s (pmap s (fst (st_mem s' a))))) \<and>
           distinct (map fst (stash s')) \<and> set (stash s') \<subseteq> set (stash s) \<and>
           (\<forall>e \<in> set (stash s). e \<in> set (stash s') \<or> (\<exists>a \<in> path_set s P. st_mem s' a = e))"
    by (elim exE)
  note run = all1 [THEN conjunct1]
  note frame = all1 [THEN conjunct2, THEN conjunct1]
  note other = all1 [THEN conjunct2, THEN conjunct2, THEN conjunct1, rule_format]
  note content = all1 [THEN conjunct2, THEN conjunct2, THEN conjunct2, THEN conjunct1, rule_format]
  note dist = all1 [THEN conjunct2, THEN conjunct2, THEN conjunct2, THEN conjunct2, THEN conjunct1]
  note sub = all1 [THEN conjunct2, THEN conjunct2, THEN conjunct2, THEN conjunct2, THEN conjunct2,
      THEN conjunct1]
  note kept = all1 [THEN conjunct2, THEN conjunct2, THEN conjunct2, THEN conjunct2, THEN conjunct2,
      THEN conjunct2, rule_format]
  have fr: "height s' = height s" "Z s' = Z s" "blocks s' = blocks s" "dataSize s' = dataSize s"
      "st_capacity s' = st_capacity s" "st_payload s' = st_payload s" "pmap s' = pmap s"
    by (subst frame, simp)+
  have ps: "\<And>x. path_set s' x = path_set s x" using fr by (intro path_set_cong)
  have i1: "params_ok s'" using M1(1) fr by (simp add: params_ok_def)
  have i3: "\<forall>b < blocks s'. pmap s' b < 2 ^ (height s' - 1)" using M1(3) by (simp add: fr)
  have i4: "\<forall>a < blocks s'. fst (st_mem s' a) \<noteq> ULONG_MAX \<longrightarrow>
        L (fst (st_mem s' a)) = Some (snd (st_mem s' a)) \<and>
        a \<in> path_set s' (pmap s' (fst (st_mem s' a)))"
  proof (intro allI impI)
    fix a assume a: "a < blocks s'" and occ: "fst (st_mem s' a) \<noteq> ULONG_MAX"
    show "L (fst (st_mem s' a)) = Some (snd (st_mem s' a)) \<and>
          a \<in> path_set s' (pmap s' (fst (st_mem s' a)))"
    proof (cases "a \<in> path_set s P")
      case True
      from content [OF True] occ
      have "st_mem s' a \<in> set (stash s)" "a \<in> path_set s (pmap s (fst (st_mem s' a)))"
        by blast+
      with cur show ?thesis by (simp add: ps fr)
    next
      case False
      from other [OF False] have same: "st_mem s' a = st_mem s a" .
      with M2 a occ False show ?thesis by (simp add: ps fr)
    qed
  qed
  have i5: "\<forall>b d. map_of (stash s') b = Some d \<longrightarrow> L b = Some d"
  proof (intro allI impI)
    fix k d assume "map_of (stash s') k = Some d"
    then have "(k, d) \<in> set (stash s')" by (rule map_of_SomeD)
    with sub have "(k, d) \<in> set (stash s)" by blast
    from cur [OF this] show "L k = Some d" by simp
  qed
  have i6: "\<forall>b d. L b = Some d \<longrightarrow>
        b < blocks s' \<and> length d = dataSize s' \<and>
        (map_of (stash s') b = Some d \<or> (\<exists>a \<in> path_set s' (pmap s' b). st_mem s' a = (b, d)))"
  proof (intro allI impI)
    fix k d assume Lk: "L k = Some d"
    with M4 have k: "k < blocks s" "length d = dataSize s"
      and where_k: "map_of (stash s) k = Some d \<or>
                (\<exists>a \<in> path_set s (pmap s k). a \<notin> path_set s P \<and> st_mem s a = (k, d))"
      by blast+
    have kU: "k \<noteq> ULONG_MAX" using k(1) par(1) by (simp add: ULONG_MAX_def)
    have "map_of (stash s') k = Some d \<or> (\<exists>a \<in> path_set s (pmap s k). st_mem s' a = (k, d))"
      using where_k
    proof
      assume "map_of (stash s) k = Some d"
      then have e: "(k, d) \<in> set (stash s)" by (rule map_of_SomeD)
      from kept [OF e] show ?thesis
      proof
        assume "(k, d) \<in> set (stash s')"
        with dist have "map_of (stash s') k = Some d" by simp
        then show ?thesis ..
      next
        assume "\<exists>a \<in> path_set s P. st_mem s' a = (k, d)"
        then obtain a where a: "a \<in> path_set s P" "st_mem s' a = (k, d)" by blast
        from content [OF a(1)] a(2) kU have "a \<in> path_set s (pmap s k)" by simp
        with a(2) show ?thesis by blast
      qed
    next
      assume "\<exists>a \<in> path_set s (pmap s k). a \<notin> path_set s P \<and> st_mem s a = (k, d)"
      then obtain a where a: "a \<in> path_set s (pmap s k)" "a \<notin> path_set s P" "st_mem s a = (k, d)"
        by blast
      from other [OF a(2)] a(3) have "st_mem s' a = (k, d)" by simp
      with a(1) show ?thesis by blast
    qed
    with k show "k < blocks s' \<and> length d = dataSize s' \<and>
        (map_of (stash s') k = Some d \<or> (\<exists>a \<in> path_set s' (pmap s' k). st_mem s' a = (k, d)))"
      by (simp add: ps fr)
  qed
  have "oram_inv s' L"
    unfolding oram_inv_def using i1 dist i3 i4 i5 i6 by (intro conjI)
  with run frame show ?thesis by blast
qed

lemma read_blocks_current:
  assumes inv: "oram_inv s L" and P: "P < 2 ^ (height s - 1)"
  shows "distinct (map fst (read_blocks (map (st_mem s) (path_list s P)) (stash s)))"
    and "\<And>k d. map_of (read_blocks (map (st_mem s) (path_list s P)) (stash s)) k = Some d
               \<Longrightarrow> L k = Some d"
    and "\<And>k d. L k = Some d \<Longrightarrow>
               map_of (stash s) k = Some d \<or> (\<exists>a \<in> path_set s P. st_mem s a = (k, d)) \<Longrightarrow>
               map_of (read_blocks (map (st_mem s) (path_list s P)) (stash s)) k = Some d"
proof -
  let ?bs = "map (st_mem s) (path_list s P)"
  let ?rb = "read_blocks ?bs (stash s)"
  have par: "params_ok s" and dist: "distinct (map fst (stash s))"
    and slots: "\<forall>a < blocks s. fst (st_mem s a) \<noteq> ULONG_MAX \<longrightarrow>
        L (fst (st_mem s a)) = Some (snd (st_mem s a)) \<and> a \<in> path_set s (pmap s (fst (st_mem s a)))"
    and cur: "\<forall>b d. map_of (stash s) b = Some d \<longrightarrow> L b = Some d"
    and cov: "\<forall>b d. L b = Some d \<longrightarrow>
        b < blocks s \<and> length d = dataSize s \<and>
        (map_of (stash s) b = Some d \<or> (\<exists>a \<in> path_set s (pmap s b). st_mem s a = (b, d)))"
    using inv unfolding oram_inv_def by blast+
  have big: "blocks s \<le> 2 ^ 31" using par by (simp add: params_ok_def)
  have bs: "set ?bs = st_mem s ` path_set s P" by (simp add: set_path_list)
  have A1: "\<forall>blk \<in> set ?bs. fst blk \<noteq> ULONG_MAX \<longrightarrow> L (fst blk) = Some (snd blk)"
  proof (intro ballI impI)
    fix blk assume "blk \<in> set ?bs" and occ: "fst blk \<noteq> ULONG_MAX"
    then obtain a where a: "a \<in> path_set s P" "blk = st_mem s a" unfolding bs by blast
    from path_set_lt_blocks [OF par P a(1)] slots occ a(2)
    show "L (fst blk) = Some (snd blk)" by blast
  qed
  note eq = map_of_read_blocks [OF A1 cur]
  show "distinct (map fst ?rb)" using dist by (rule distinct_read_blocks)
  show "\<And>k d. map_of ?rb k = Some d \<Longrightarrow> L k = Some d"
    by (subst (asm) eq) (simp split: if_splits)
  show "\<And>k d. L k = Some d \<Longrightarrow>
               map_of (stash s) k = Some d \<or> (\<exists>a \<in> path_set s P. st_mem s a = (k, d)) \<Longrightarrow>
               map_of ?rb k = Some d"
  proof -
    fix k d assume Lk: "L k = Some d"
      and w: "map_of (stash s) k = Some d \<or> (\<exists>a \<in> path_set s P. st_mem s a = (k, d))"
    from Lk cov have "k < blocks s" by blast
    with big have kU: "k \<noteq> ULONG_MAX" by (simp add: ULONG_MAX_def)
    have "k \<in> fst ` {b \<in> set ?bs. fst b \<noteq> ULONG_MAX} \<or> k \<in> dom (map_of (stash s))"
      using w
    proof
      assume "map_of (stash s) k = Some d"
      then show ?thesis by blast
    next
      assume "\<exists>a \<in> path_set s P. st_mem s a = (k, d)"
      then obtain a where "a \<in> path_set s P" "st_mem s a = (k, d)" by blast
      then have "(k, d) \<in> set ?bs" unfolding bs by (metis imageI)
      with kU have "(k, d) \<in> {b \<in> set ?bs. fst b \<noteq> ULONG_MAX}" by simp
      then have "fst (k, d) \<in> fst ` {b \<in> set ?bs. fst b \<noteq> ULONG_MAX}" by (rule imageI)
      then show ?thesis by simp
    qed
    then show "map_of ?rb k = Some d" by (subst eq) (simp only: if_True Lk)
  qed
qed


lemma access_inv:
  assumes inv: "oram_inv s L" and b: "b < blocks s" and len: "read \<or> length data = dataSize s"
  shows "\<exists>s'. s' = s\<lparr>st_mem := st_mem s', pmap := pmap s', stash := stash s'\<rparr> \<and>
           ((\<exists>d. (if read then L else L(b \<mapsto> data)) b = Some d \<and>
                 access read b data ld draw s = (Inr d, s') \<and>
                 oram_inv s' (if read then L else L(b \<mapsto> data))) \<or>
            (read \<and> L b = None \<and> access read b data ld draw s = (Inl (StashMiss b), s') \<and>
             oram_inv s' L))"
proof -
  let ?L' = "if read then L else L(b \<mapsto> data)"
  let ?prev = "pmap s b"
  let ?leaf = "ld mod 2 ^ (height s - 1)"
  define rb where "rb = read_blocks (map (st_mem s) (path_list s ?prev)) (stash s)"
  define sa where "sa = s\<lparr>pmap := (pmap s)(b := ?leaf)\<rparr>"
  define sb where "sb = sa\<lparr>stash := rb\<rparr>"
  define sc where "sc = (if read then sb else sb\<lparr>stash := upsert b data rb\<rparr>)"
  have par: "params_ok s" and dist: "distinct (map fst (stash s))"
    and rng: "\<forall>b < blocks s. pmap s b < 2 ^ (height s - 1)"
    and slots: "\<forall>a < blocks s. fst (st_mem s a) \<noteq> ULONG_MAX \<longrightarrow>
        L (fst (st_mem s a)) = Some (snd (st_mem s a)) \<and> a \<in> path_set s (pmap s (fst (st_mem s a)))"
    and cur: "\<forall>b d. map_of (stash s) b = Some d \<longrightarrow> L b = Some d"
    and cov: "\<forall>b d. L b = Some d \<longrightarrow>
        b < blocks s \<and> length d = dataSize s \<and>
        (map_of (stash s) b = Some d \<or> (\<exists>a \<in> path_set s (pmap s b). st_mem s a = (b, d)))"
    using inv unfolding oram_inv_def by blast+
  have prev: "?prev < 2 ^ (height s - 1)" using rng b by blast
  have leaf: "?leaf < 2 ^ (height s - 1)" by simp
  note rb1 = read_blocks_current(1) [OF inv prev, folded rb_def]
  note rb2 = read_blocks_current(2) [OF inv prev, folded rb_def]
  note rb3 = read_blocks_current(3) [OF inv prev, folded rb_def]
  \<comment> \<open>the states on the way\<close>
  have fa: "height sa = height s" "Z sa = Z s" "blocks sa = blocks s" "dataSize sa = dataSize s"
      "st_capacity sa = st_capacity s" "st_payload sa = st_payload s" "st_mem sa = st_mem s"
      "stash sa = stash s" "pmap sa = (pmap s)(b := ?leaf)"
    by (simp_all add: sa_def)
  have fb: "height sb = height s" "Z sb = Z s" "blocks sb = blocks s" "dataSize sb = dataSize s"
      "st_capacity sb = st_capacity s" "st_payload sb = st_payload s" "st_mem sb = st_mem s"
      "stash sb = rb" "pmap sb = (pmap s)(b := ?leaf)"
    by (simp_all add: sb_def sa_def)
  have fc: "height sc = height s" "Z sc = Z s" "blocks sc = blocks s" "dataSize sc = dataSize s"
      "st_capacity sc = st_capacity s" "st_payload sc = st_payload s" "st_mem sc = st_mem s"
      "stash sc = (if read then rb else upsert b data rb)" "pmap sc = (pmap s)(b := ?leaf)"
    by (simp_all add: sc_def sb_def sa_def)
  have frb: "sb = s\<lparr>st_mem := st_mem sb, pmap := pmap sb, stash := stash sb\<rparr>"
    by (simp add: sb_def sa_def)
  have frc: "sc = s\<lparr>st_mem := st_mem sc, pmap := pmap sc, stash := stash sc\<rparr>"
    by (simp add: sc_def sb_def sa_def)
  have pa: "params_ok sa" using par fa by (simp add: params_ok_def)
  have pb: "params_ok sb" using par fb by (simp add: params_ok_def)
  have pc: "params_ok sc" using par fc by (simp add: params_ok_def)
  have psb: "\<And>x. path_set sb x = path_set s x" using fb by (intro path_set_cong)
  have psc: "\<And>x. path_set sc x = path_set s x" using fc by (intro path_set_cong)
  have pla: "path_list sa ?prev = path_list s ?prev" using fa by (intro path_list_cong)
  \<comment> \<open>the steps of the call\<close>
  have e1: "mapGet b s = (Inr ?prev, s)" by (simp add: mapGet_def)
  have e2: "randomLeaf ld s = (Inr ?leaf, s)" using par by (rule randomLeaf_eq)
  have e3: "mapSet b ?leaf s = (Inr (), sa)" by (simp add: mapSet_def sa_def)
  have "readPath ?prev sa =
          (Inr (), sa\<lparr>stash := read_blocks (map (st_mem sa) (path_list sa ?prev)) (stash sa)\<rparr>)"
    using pa prev by (intro readPath_eq) (simp_all add: fa)
  then have e4: "readPath ?prev sa = (Inr (), sb)"
    by (simp only: pla fa sb_def rb_def)
  have e5: "(if \<not> read then stashUpdate b data else ret ()) sb = (Inr (), sc)"
    by (simp add: sc_def stashUpdate_def ret_def fb)
  have mc: "\<And>k. map_of (stash sc) k = (if \<not> read \<and> k = b then Some data else map_of rb k)"
    by (simp add: fc map_of_upsert)
  have start: "\<And>r sx. bind (stashGet b) (\<lambda>returned. bind (writePath ?prev draw) (\<lambda>_. ret returned)) sc = (r, sx)
      \<Longrightarrow> access read b data ld draw s = (r, sx)"
    unfolding access_def
    by (simp only: bind_ok [of "mapGet b" s, OF e1] bind_ok [of "randomLeaf ld" s, OF e2]
        bind_ok [of "mapSet b ?leaf" s, OF e3] bind_ok [of "readPath ?prev" sa, OF e4]
        bind_ok [of "if \<not> read then stashUpdate b data else ret ()" sb, OF e5])
  \<comment> \<open>the block asked for is in the stash when it has a payload\<close>
  have bd: "\<And>d. ?L' b = Some d \<Longrightarrow> map_of (stash sc) b = Some d"
  proof -
    fix d assume d: "?L' b = Some d"
    show "map_of (stash sc) b = Some d"
    proof (cases read)
      case True
      with d have Lb: "L b = Some d" by simp
      with cov have "map_of (stash s) b = Some d \<or> (\<exists>a \<in> path_set s ?prev. st_mem s a = (b, d))"
        by blast
      from rb3 [OF Lb this] True show ?thesis by (simp add: mc)
    next
      case False
      with d show ?thesis by (simp add: mc)
    qed
  qed
  show ?thesis
  proof (cases "?L' b")
    case None
    then have rd: read and Lb: "L b = None" by (simp_all split: if_splits)
    have scb: "sc = sb" using rd by (simp add: sc_def)
    have "map_of rb b = None"
    proof (cases "map_of rb b")
      case None then show ?thesis .
    next
      case (Some d)
      from rb2 [OF this] Lb show ?thesis by simp
    qed
    then have e6: "stashGet b sc = (Inl (StashMiss b), sc)"
      by (simp add: stashGet_def mc rd)
    have run: "access read b data ld draw s = (Inl (StashMiss b), sb)"
      using e6 by (intro start) (simp add: bind_def scb)
    have i3: "\<forall>k < blocks sb. pmap sb k < 2 ^ (height sb - 1)"
      using rng leaf by (simp add: fb)
    have i4: "\<forall>a < blocks sb. fst (st_mem sb a) \<noteq> ULONG_MAX \<longrightarrow>
        L (fst (st_mem sb a)) = Some (snd (st_mem sb a)) \<and>
        a \<in> path_set sb (pmap sb (fst (st_mem sb a)))"
    proof (intro allI impI)
      fix a assume a: "a < blocks sb" and occ: "fst (st_mem sb a) \<noteq> ULONG_MAX"
      with slots have s1: "L (fst (st_mem s a)) = Some (snd (st_mem s a))"
        and s2: "a \<in> path_set s (pmap s (fst (st_mem s a)))" by (simp_all add: fb)
      from s1 Lb have "fst (st_mem s a) \<noteq> b" by auto
      with s1 s2 show "L (fst (st_mem sb a)) = Some (snd (st_mem sb a)) \<and>
        a \<in> path_set sb (pmap sb (fst (st_mem sb a)))" by (simp add: fb psb)
    qed
    have i5: "\<forall>k d. map_of (stash sb) k = Some d \<longrightarrow> L k = Some d"
      using rb2 by (simp add: fb)
    have i6: "\<forall>k d. L k = Some d \<longrightarrow>
        k < blocks sb \<and> length d = dataSize sb \<and>
        (map_of (stash sb) k = Some d \<or> (\<exists>a \<in> path_set sb (pmap sb k). st_mem sb a = (k, d)))"
    proof (intro allI impI)
      fix k d assume Lk: "L k = Some d"
      with Lb have kb: "k \<noteq> b" by auto
      from Lk cov have k: "k < blocks s" "length d = dataSize s"
        and w: "map_of (stash s) k = Some d \<or> (\<exists>a \<in> path_set s (pmap s k). st_mem s a = (k, d))"
        by blast+
      from w have "map_of rb k = Some d \<or> (\<exists>a \<in> path_set s (pmap s k). st_mem s a = (k, d))"
      proof
        assume "map_of (stash s) k = Some d"
        then have "map_of rb k = Some d" by (intro rb3 [OF Lk]) simp
        then show ?thesis ..
      next
        assume "\<exists>a \<in> path_set s (pmap s k). st_mem s a = (k, d)"
        then show ?thesis ..
      qed
      with k kb show "k < blocks sb \<and> length d = dataSize sb \<and>
        (map_of (stash sb) k = Some d \<or> (\<exists>a \<in> path_set sb (pmap sb k). st_mem sb a = (k, d)))"
        by (simp add: fb psb)
    qed
    have d2: "distinct (map fst (stash sb))" using rb1 by (simp add: fb)
    have "oram_inv sb L"
      unfolding oram_inv_def using pb d2 i3 i4 i5 i6 by (intro conjI)
    with rd Lb run frb show ?thesis by blast
  next
    case (Some d)
    from bd [OF Some] have e6: "stashGet b sc = (Inr d, sc)" by (simp add: stashGet_def)
    have m1: "distinct (map fst (stash sc))"
      using rb1 by (simp add: fc distinct_upsert)
    have m1': "\<forall>k < blocks sc. pmap sc k < 2 ^ (height sc - 1)"
      using rng leaf by (simp add: fc)
    have mp: "?prev < 2 ^ (height sc - 1)" using prev by (simp add: fc)
    have m2: "\<forall>a < blocks sc. a \<notin> path_set sc ?prev \<longrightarrow> fst (st_mem sc a) \<noteq> ULONG_MAX \<longrightarrow>
              ?L' (fst (st_mem sc a)) = Some (snd (st_mem sc a)) \<and>
              a \<in> path_set sc (pmap sc (fst (st_mem sc a)))"
    proof (intro allI impI)
      fix a assume a: "a < blocks sc" and off: "a \<notin> path_set sc ?prev"
        and occ: "fst (st_mem sc a) \<noteq> ULONG_MAX"
      from a occ slots have s1: "L (fst (st_mem s a)) = Some (snd (st_mem s a))"
        and s2: "a \<in> path_set s (pmap s (fst (st_mem s a)))" by (simp_all add: fc)
      from s2 off have "fst (st_mem s a) \<noteq> b" by (auto simp: psc)
      with s1 s2 show "?L' (fst (st_mem sc a)) = Some (snd (st_mem sc a)) \<and>
              a \<in> path_set sc (pmap sc (fst (st_mem sc a)))" by (simp add: fc psc)
    qed
    have m3: "\<forall>k d. map_of (stash sc) k = Some d \<longrightarrow> ?L' k = Some d"
    proof (intro allI impI)
      fix k d' assume k: "map_of (stash sc) k = Some d'"
      show "?L' k = Some d'"
      proof (cases "\<not> read \<and> k = b")
        case True
        with k show ?thesis by (simp add: mc)
      next
        case False
        with k have "map_of rb k = Some d'" by (simp add: mc)
        from rb2 [OF this] False show ?thesis by auto
      qed
    qed
    have m4: "\<forall>k d. ?L' k = Some d \<longrightarrow> k < blocks sc \<and> length d = dataSize sc \<and>
               (map_of (stash sc) k = Some d \<or>
                (\<exists>a \<in> path_set sc (pmap sc k). a \<notin> path_set sc ?prev \<and> st_mem sc a = (k, d)))"
    proof (intro allI impI)
      fix k d' assume Lk: "?L' k = Some d'"
      show "k < blocks sc \<and> length d' = dataSize sc \<and>
               (map_of (stash sc) k = Some d' \<or>
                (\<exists>a \<in> path_set sc (pmap sc k). a \<notin> path_set sc ?prev \<and> st_mem sc a = (k, d')))"
      proof (cases "k = b")
        case True
        have "length d' = dataSize s"
        proof (cases read)
          case True
          with Lk \<open>k = b\<close> have "L b = Some d'" by simp
          with cov show ?thesis by blast
        next
          case False
          with Lk \<open>k = b\<close> len show ?thesis by simp
        qed
        moreover have "map_of (stash sc) b = Some d'" using Lk True by (intro bd) simp
        ultimately show ?thesis using b True by (simp add: fc(3,4))
      next
        case False
        with Lk have L0: "L k = Some d'" by (simp split: if_splits)
        with cov have k: "k < blocks s" "length d' = dataSize s"
          and w: "map_of (stash s) k = Some d' \<or> (\<exists>a \<in> path_set s (pmap s k). st_mem s a = (k, d'))"
          by blast+
        have "map_of rb k = Some d' \<or>
                (\<exists>a \<in> path_set s (pmap s k). a \<notin> path_set s ?prev \<and> st_mem s a = (k, d'))"
          using w
        proof
          assume "map_of (stash s) k = Some d'"
          then have "map_of rb k = Some d'" by (intro rb3 [OF L0]) simp
          then show ?thesis ..
        next
          assume "\<exists>a \<in> path_set s (pmap s k). st_mem s a = (k, d')"
          then obtain a where a: "a \<in> path_set s (pmap s k)" "st_mem s a = (k, d')" by blast
          show ?thesis
          proof (cases "a \<in> path_set s ?prev")
            case True
            with a(2) have "map_of rb k = Some d'" by (intro rb3 [OF L0]) blast
            then show ?thesis ..
          next
            case False
            with a show ?thesis by blast
          qed
        qed
        with k False show ?thesis by (simp add: mc fc(1-7) fc(9) psc)
      qed
    qed
    from writePath_inv [OF pc m1 m1' mp m2 m3 m4, of draw]
    obtain sd where e7: "writePath ?prev draw sc = (Inr (), sd)" and inv': "oram_inv sd ?L'"
      and frd: "sd = sc\<lparr>st_mem := st_mem sd, stash := stash sd\<rparr>" by blast
    have run: "access read b data ld draw s = (Inr d, sd)"
      by (rule start)
        (simp only: bind_ok [of "stashGet b" sc, OF e6] bind_ok [of "writePath ?prev draw" sc, OF e7]
          ret_def)
    have pd: "pmap sd = pmap sc" by (subst frd) simp
    have "sd = s\<lparr>st_mem := st_mem sd, pmap := pmap sd, stash := stash sd\<rparr>"
      unfolding pd by (subst frd, subst frc) simp
    with Some run inv' show ?thesis by blast
  qed
qed

subsection \<open>The invariant through a run of calls\<close>

lemma perform_inv:
  assumes inv: "oram_inv s L" and v: "valid_call (blocks s) (dataSize s) c"
  shows "oram_inv (perform (c, ld, draw) s) (record_call c L) \<and>
         blocks (perform (c, ld, draw) s) = blocks s \<and>
         dataSize (perform (c, ld, draw) s) = dataSize s"
proof (cases c)
  case (GetBlock b)
  with v have b: "b < blocks s" by simp
  from access_inv [OF inv b, of True "[]" ld draw]
  obtain s' where fr: "s' = s\<lparr>st_mem := st_mem s', pmap := pmap s', stash := stash s'\<rparr>"
    and r: "(\<exists>d. access True b [] ld draw s = (Inr d, s') \<and> oram_inv s' L) \<or>
            (access True b [] ld draw s = (Inl (StashMiss b), s') \<and> oram_inv s' L)"
    by auto
  from r have "snd (access True b [] ld draw s) = s'" and i: "oram_inv s' L" by auto
  then have p: "perform (c, ld, draw) s = s'" by (simp add: GetBlock oram_get_def)
  have "blocks s' = blocks s" "dataSize s' = dataSize s" by (subst fr, simp)+
  with i show ?thesis unfolding p by (simp add: GetBlock)
next
  case (PutBlock b d)
  with v have b: "b < blocks s" and len: "length d = dataSize s" by simp_all
  from access_inv [OF inv b, of False d ld draw] len
  obtain s' where fr: "s' = s\<lparr>st_mem := st_mem s', pmap := pmap s', stash := stash s'\<rparr>"
    and r: "\<exists>d'. access False b d ld draw s = (Inr d', s') \<and> oram_inv s' (L(b \<mapsto> d))"
    by auto
  from r have "snd (oram_put b d ld draw s) = s'" and i: "oram_inv s' (L(b \<mapsto> d))"
    by (auto simp: oram_put_def bind_def ret_def)
  then have p: "perform (c, ld, draw) s = s'" by (simp add: PutBlock)
  have "blocks s' = blocks s" "dataSize s' = dataSize s" by (subst fr, simp)+
  with i show ?thesis unfolding p by (simp add: PutBlock)
qed

lemma perform_all_inv:
  assumes "oram_inv s L" and "\<forall>c \<in> set calls. valid_call (blocks s) (dataSize s) (fst c)"
  shows "oram_inv (perform_all calls s) (record_calls calls L) \<and>
         blocks (perform_all calls s) = blocks s \<and>
         dataSize (perform_all calls s) = dataSize s"
  using assms
proof (induction calls arbitrary: s L)
  case Nil
  then show ?case by (simp add: perform_all_def record_calls_def)
next
  case (Cons c calls)
  obtain cl ld draw where c: "c = (cl, ld, draw)" by (cases c)
  from Cons.prems(2) have v: "valid_call (blocks s) (dataSize s) cl" by (simp add: c)
  note one = perform_inv [OF Cons.prems(1) v, of ld draw]
  note i1 = one [THEN conjunct1]
  note b1 = one [THEN conjunct2, THEN conjunct1]
  note d1 = one [THEN conjunct2, THEN conjunct2]
  have "\<forall>c \<in> set calls. valid_call (blocks (perform (cl, ld, draw) s))
            (dataSize (perform (cl, ld, draw) s)) (fst c)"
    using Cons.prems(2) by (simp add: b1 d1)
  note rest = Cons.IH [OF i1 this]
  have pa: "perform_all (c # calls) s = perform_all calls (perform (cl, ld, draw) s)"
    by (simp add: perform_all_def c)
  have ra: "record_calls (c # calls) L = record_calls calls (record_call cl L)"
    by (simp add: record_calls_def c)
  from rest show ?case unfolding pa ra by (simp add: b1 d1)
qed

lemma record_calls_other:
  "\<forall>c \<in> set calls. call_block (fst c) \<noteq> b \<Longrightarrow> record_calls calls L b = L b"
proof (induction calls arbitrary: L)
  case Nil
  then show ?case by (simp add: record_calls_def)
next
  case (Cons c calls)
  have ra: "record_calls (c # calls) L = record_calls calls (record_call (fst c) L)"
    by (simp add: record_calls_def)
  have "record_call (fst c) L b = L b" using Cons.prems by (cases "fst c") simp_all
  with Cons show ?case unfolding ra by simp
qed

subsection \<open>The invariant after construction\<close>

lemma for_each_mono:
  assumes "F s"
    and step: "\<And>x s. x \<in> set xs \<Longrightarrow> F s \<Longrightarrow>
                 \<exists>s'. body x s = (Inr (), s') \<and> F s' \<and> Q x s' \<and> (\<forall>a. G s a \<longrightarrow> G s' a)"
    and keep: "\<And>x s s'. Q x s \<Longrightarrow> (\<forall>a. G s a \<longrightarrow> G s' a) \<Longrightarrow> Q x s'"
  shows "\<exists>s'. for_each xs body s = (Inr (), s') \<and> F s' \<and> (\<forall>x \<in> set xs. Q x s') \<and>
              (\<forall>a. G s a \<longrightarrow> G s' a)"
  using assms(1,2)
proof (induction xs arbitrary: s)
  case Nil
  then show ?case by (simp add: ret_def)
next
  case (Cons x xs)
  have "x \<in> set (x # xs)" by simp
  from Cons.prems(2) [OF this Cons.prems(1)]
  obtain s1 where b: "body x s = (Inr (), s1)" and F1: "F s1" and Q1: "Q x s1"
    and G1: "\<forall>a. G s a \<longrightarrow> G s1 a" by blast
  have "\<And>y s. y \<in> set xs \<Longrightarrow> F s \<Longrightarrow>
                 \<exists>s'. body y s = (Inr (), s') \<and> F s' \<and> Q y s' \<and> (\<forall>a. G s a \<longrightarrow> G s' a)"
    using Cons.prems(2) by simp
  from Cons.IH [OF F1 this]
  obtain s2 where r: "for_each xs body s1 = (Inr (), s2)" and F2: "F s2"
    and Q2: "\<forall>y \<in> set xs. Q y s2" and G2: "\<forall>a. G s1 a \<longrightarrow> G s2 a" by blast
  have run: "for_each (x # xs) body s = (Inr (), s2)"
    using b r by (simp add: bind_def)
  have "Q x s2" using Q1 G2 by (rule keep)
  with Q2 have Qall: "\<forall>y \<in> set (x # xs). Q y s2" by simp
  have "\<forall>a. G s a \<longrightarrow> G s2 a" using G1 G2 by blast
  with run F2 Qall show ?case by blast
qed


lemma slot_lt: "i < n \<Longrightarrow> j < z \<Longrightarrow> i * z + j < n * (z::nat)"
proof -
  assume i: "i < n" and j: "j < z"
  have "i * z + j < Suc i * z" using j by simp
  also have "\<dots> \<le> n * z" using i by (intro mult_le_mono1) simp
  finally show ?thesis .
qed

lemma length_getRandomBlock: "length (getRandomBlock n d) = n"
  by (simp add: getRandomBlock_def)

lemma ORAM_constructed:
  assumes H64: "H < 64" and big: "2 ^ H * Zc < 2 ^ 64" and cap: "2 ^ H * Zc \<le> capacity"
    and bs: "8 \<le> blockSize" "blockSize < 2 ^ 64" and pl: "payload = blockSize - 8"
    and sh: "shl_int_1 (ulong_minus H 1) = Some p"
  shows "\<exists>s. ORAM H blockSize Zc capacity payload mem0 map0 [] draw leafDraw = (Inr (), s) \<and>
             height s = H \<and> Z s = Zc \<and> dataSize s = blockSize - 8 \<and> blocks s = 2 ^ H * Zc \<and>
             st_capacity s = capacity \<and> st_payload s = payload \<and> stash s = [] \<and>
             (\<forall>a < 2 ^ H * Zc. fst (st_mem s a) = ULONG_MAX) \<and>
             (\<forall>i < 2 ^ H * Zc. pmap s i = getRandomULong (of_int_ulong p) (leafDraw i))"
proof -
  define base where "base = \<lparr>height = H, Z = Zc, dataSize = blockSize - 8, buckets = 2 ^ H,
      blocks = 2 ^ H * Zc, st_capacity = capacity, st_payload = payload, st_mem = mem0,
      pmap = map0, stash = []\<rparr>"
  define F where "F = (\<lambda>s::oram. height s = H \<and> Z s = Zc \<and> dataSize s = blockSize - 8 \<and>
      blocks s = 2 ^ H * Zc \<and> st_capacity s = capacity \<and> st_payload s = payload \<and> stash s = [])"
  define G where "G = (\<lambda>(s::oram) a. fst (st_mem s a) = ULONG_MAX)"
  let ?slot = "\<lambda>i j. storageSet (wrap (i * Zc + j))
                 (ULONG_MAX, getRandomBlock (blockSize - 8) (draw (wrap (i * Zc + j))))"
  let ?fill = "for_each [0..<2 ^ H] (\<lambda>i. for_each [0..<Zc] (\<lambda>j. ?slot i j))"
  let ?maps = "for_each [0..<2 ^ H * Zc] (\<lambda>i. bind (randomLeaf (leafDraw i)) (\<lambda>leaf. mapSet i leaf))"
  have "(2::nat) ^ H < 2 ^ 64" using H64 by (intro power_strict_increasing) simp_all
  then have nb: "wrap (2 ^ H) = 2 ^ H" by (simp add: wrap_def)
  have bl: "wrap (2 ^ H * Zc) = 2 ^ H * Zc" using big by (simp add: wrap_def)
  have ds: "ulong_minus blockSize 8 = blockSize - 8" using bs by (intro ulong_minus_small)
  have unf: "ORAM H blockSize Zc capacity payload mem0 map0 [] draw leafDraw =
               bind ?fill (\<lambda>_. ?maps) base"
    by (simp add: ORAM_def Let_def nb bl ds H64 defined_Some bind_ret_left base_def)
  have F0: "F base" by (simp add: F_def base_def)
  \<comment> \<open>the loop that fills the storage\<close>
  have inner: "\<exists>s'. for_each [0..<Zc] (\<lambda>j. ?slot i j) s = (Inr (), s') \<and> F s' \<and>
                 (\<forall>j \<in> set [0..<Zc]. G s' (i * Zc + j)) \<and> (\<forall>a. G s a \<longrightarrow> G s' a)"
    if i: "i \<in> set [0..<2 ^ H]" and Fs: "F s" for i s
    using Fs
  proof (rule for_each_mono)
    fix j s assume j: "j \<in> set [0..<Zc]" and Fs: "F s"
    let ?a = "i * Zc + j"
    have "?a < 2 ^ H * Zc" using i j by (intro slot_lt) simp_all
    with big cap have a: "?a < capacity" "?a < 2 ^ 64" by linarith+
    let ?s' = "s\<lparr>st_mem := (st_mem s)(?a := (ULONG_MAX, getRandomBlock (blockSize - 8) (draw ?a)))\<rparr>"
    have w: "wrap ?a = ?a" using a(2) by (simp add: wrap_def)
    have "?slot i j s = (Inr (), ?s')"
      using Fs a(1) pl unfolding w by (simp add: storageSet_def F_def length_getRandomBlock)
    moreover have "F ?s'" using Fs by (simp add: F_def)
    moreover have "G ?s' ?a" by (simp add: G_def)
    moreover have "\<forall>a. G s a \<longrightarrow> G ?s' a" by (simp add: G_def)
    ultimately show "\<exists>s'. ?slot i j s = (Inr (), s') \<and> F s' \<and> G s' (i * Zc + j) \<and>
                         (\<forall>a. G s a \<longrightarrow> G s' a)" by blast
  next
    fix j s s' assume "G s (i * Zc + j)" "\<forall>a. G s a \<longrightarrow> G s' a"
    then show "G s' (i * Zc + j)" by blast
  qed
  have "\<exists>s'. ?fill base = (Inr (), s') \<and> F s' \<and>
              (\<forall>i \<in> set [0..<2 ^ H]. \<forall>j \<in> set [0..<Zc]. G s' (i * Zc + j)) \<and>
              (\<forall>a. G base a \<longrightarrow> G s' a)"
    using F0
  proof (rule for_each_mono)
    fix i s assume "i \<in> set [0..<2 ^ H]" "F s"
    then show "\<exists>s'. for_each [0..<Zc] (\<lambda>j. ?slot i j) s = (Inr (), s') \<and> F s' \<and>
                 (\<forall>j \<in> set [0..<Zc]. G s' (i * Zc + j)) \<and> (\<forall>a. G s a \<longrightarrow> G s' a)"
      by (rule inner)
  next
    fix i s s' assume "\<forall>j \<in> set [0..<Zc]. G s (i * Zc + j)" "\<forall>a. G s a \<longrightarrow> G s' a"
    then show "\<forall>j \<in> set [0..<Zc]. G s' (i * Zc + j)" by blast
  qed
  then obtain sF where fill: "?fill base = (Inr (), sF)" and FF: "F sF"
    and QF: "\<forall>i \<in> set [0..<2 ^ H]. \<forall>j \<in> set [0..<Zc]. G sF (i * Zc + j)" by blast
  have dummy: "fst (st_mem sF a) = ULONG_MAX" if "a < 2 ^ H * Zc" for a
  proof -
    have z: "0 < Zc" using that by (cases Zc) simp_all
    have "a div Zc < 2 ^ H" using that by (simp add: less_mult_imp_div_less)
    then have i: "a div Zc \<in> set [0..<2 ^ H]" by simp
    have j: "a mod Zc \<in> set [0..<Zc]" using z by simp
    from QF [rule_format, OF i j] have "G sF (a div Zc * Zc + a mod Zc)" .
    then show ?thesis by (simp add: G_def)
  qed
  \<comment> \<open>the loop that fills the position map\<close>
  define F2 where "F2 = (\<lambda>s. F s \<and> st_mem s = st_mem sF)"
  define G2 where "G2 = (\<lambda>(s::oram) i. pmap s i = getRandomULong (of_int_ulong p) (leafDraw i))"
  have "\<exists>s'. ?maps sF = (Inr (), s') \<and> F2 s' \<and> (\<forall>i \<in> set [0..<2 ^ H * Zc]. G2 s' i) \<and>
              (\<forall>a. G2 sF a \<longrightarrow> G2 s' a)"
  proof (rule for_each_mono)
    show "F2 sF" using FF by (simp add: F2_def)
  next
    fix i s assume i: "i \<in> set [0..<2 ^ H * Zc]" and Fs: "F2 s"
    have hs: "height s = H" using Fs by (simp add: F2_def F_def)
    let ?leaf = "getRandomULong (of_int_ulong p) (leafDraw i)"
    let ?s' = "s\<lparr>pmap := (pmap s)(i := ?leaf)\<rparr>"
    have "randomLeaf (leafDraw i) s = (Inr ?leaf, s)"
      unfolding randomLeaf_def hs sh by (simp add: defined_def bind_def ret_def)
    then have "bind (randomLeaf (leafDraw i)) (\<lambda>leaf. mapSet i leaf) s = (Inr (), ?s')"
      by (simp add: bind_def mapSet_def)
    moreover have "F2 ?s'" using Fs by (simp add: F2_def F_def)
    moreover have "G2 ?s' i" by (simp add: G2_def)
    moreover have "\<forall>a. G2 s a \<longrightarrow> G2 ?s' a" by (simp add: G2_def)
    ultimately show "\<exists>s'. bind (randomLeaf (leafDraw i)) (\<lambda>leaf. mapSet i leaf) s = (Inr (), s') \<and>
                         F2 s' \<and> G2 s' i \<and> (\<forall>a. G2 s a \<longrightarrow> G2 s' a)" by blast
  next
    fix i s s' assume "G2 s i" "\<forall>a. G2 s a \<longrightarrow> G2 s' a"
    then show "G2 s' i" by blast
  qed
  then obtain sM where maps: "?maps sF = (Inr (), sM)" and FM: "F2 sM"
    and QM: "\<forall>i \<in> set [0..<2 ^ H * Zc]. G2 sM i" by blast
  have run: "ORAM H blockSize Zc capacity payload mem0 map0 [] draw leafDraw = (Inr (), sM)"
    unfolding unf using fill maps by (simp add: bind_def)
  have f: "height sM = H" "Z sM = Zc" "dataSize sM = blockSize - 8" "blocks sM = 2 ^ H * Zc"
      "st_capacity sM = capacity" "st_payload sM = payload" "stash sM = []"
      "st_mem sM = st_mem sF"
    using FM by (simp_all add: F2_def F_def)
  have "\<forall>a < 2 ^ H * Zc. fst (st_mem sM a) = ULONG_MAX" using dummy by (simp add: f)
  moreover have "\<forall>i < 2 ^ H * Zc. pmap sM i = getRandomULong (of_int_ulong p) (leafDraw i)"
    using QM by (simp add: G2_def)
  ultimately show ?thesis using run f(1-7) by blast
qed

lemma ORAM_inv:
  assumes H: "1 \<le> H" and Zc: "1 \<le> Zc" and big: "2 ^ H * Zc \<le> 2 ^ 31"
    and cap: "2 ^ H * Zc \<le> capacity"
    and bs: "8 \<le> blockSize" "blockSize < 2 ^ 64" and pl: "payload = blockSize - 8"
  shows "\<exists>s. ORAM H blockSize Zc capacity payload mem0 map0 [] draw leafDraw = (Inr (), s) \<and>
             oram_inv s Map.empty \<and> blocks s = 2 ^ H * Zc \<and> dataSize s = blockSize - 8"
proof -
  have "(2::nat) ^ H * 1 \<le> 2 ^ H * Zc" using Zc by (intro mult_le_mono2)
  then have "(2::nat) ^ H \<le> 2 ^ H * Zc" by (simp only: mult_1_right)
  from this big have p31: "(2::nat) ^ H \<le> 2 ^ 31" by (rule order_trans)
  then have H31: "H \<le> 31" by (rule power_le_imp_le_exp [rotated]) simp
  from H H31 obtain k where k: "H = Suc k" "k < 31" by (cases H) simp_all
  have H64: "H < 64" using H31 by simp
  have big64: "2 ^ H * Zc < (2::nat) ^ 64" using big by simp
  have sh: "shl_int_1 (ulong_minus H 1) = Some (2 ^ (H - 1))"
    using k by (simp add: shl_int_1_def ulong_minus_def)
  have "(2::int) ^ k < 2 ^ 64" using k(2) by (intro power_strict_increasing) simp_all
  then have p: "of_int_ulong (2 ^ (H - 1)) = 2 ^ (H - 1)"
    using k(1) by (simp add: of_int_ulong_def nat_power_eq)
  from ORAM_constructed [OF H64 big64 cap bs pl sh, of mem0 map0 draw leafDraw]
  obtain s where run: "ORAM H blockSize Zc capacity payload mem0 map0 [] draw leafDraw = (Inr (), s)"
    and f: "height s = H" "Z s = Zc" "dataSize s = blockSize - 8" "blocks s = 2 ^ H * Zc"
      "st_capacity s = capacity" "st_payload s = payload" "stash s = []"
    and dummy: "\<forall>a < 2 ^ H * Zc. fst (st_mem s a) = ULONG_MAX"
    and leaves: "\<forall>i < 2 ^ H * Zc. pmap s i = getRandomULong (of_int_ulong (2 ^ (H - 1))) (leafDraw i)"
    by blast
  have i1: "params_ok s" using H Zc big cap pl by (simp add: params_ok_def f)
  have i3: "\<forall>b < blocks s. pmap s b < 2 ^ (height s - 1)"
    using leaves unfolding p by (simp add: f getRandomULong_def)
  have i4: "\<forall>a < blocks s. fst (st_mem s a) \<noteq> ULONG_MAX \<longrightarrow>
        Map.empty (fst (st_mem s a)) = Some (snd (st_mem s a)) \<and>
        a \<in> path_set s (pmap s (fst (st_mem s a)))"
    using dummy by (simp add: f)
  have "oram_inv s Map.empty"
    unfolding oram_inv_def using i1 i3 i4 by (simp add: f(7))
  with run f(3,4) show ?thesis by blast
qed

lemma path_slots_eq:
  assumes "params_ok s" "leaf < 2 ^ (height s - 1)"
  shows "path_slots s leaf = path_list s leaf"
proof -
  have H: "1 \<le> height s" "height s \<le> 31" and big: "blocks s \<le> 2 ^ 31"
    using assms(1) height_le_31 by (simp_all add: params_ok_def)
  have "(case bucketForLevelLeaf (height s) l leaf of None \<Rightarrow> []
         | Some bucket \<Rightarrow> map (\<lambda>i. wrap (bucket * Z s + i)) [0..<Z s]) =
        map (\<lambda>i. slot_addr s leaf l i) [0..<Z s]"
    if "l \<in> set [0..<height s]" for l
  proof -
    have l: "l < height s" using that by simp
    have b: "bucketForLevelLeaf (height s) l leaf = Some (bucket_spec (height s) l leaf)"
      using H assms(2) l by (rule bucketForLevelLeaf_spec)
    have "wrap (slot_addr s leaf l i) = slot_addr s leaf l i" if "i \<in> set [0..<Z s]" for i
    proof -
      have "i < Z s" using that by simp
      from slot_addr_lt_blocks [OF assms l this] big show ?thesis by (simp add: wrap_def)
    qed
    then have "map (\<lambda>i. wrap (slot_addr s leaf l i)) [0..<Z s] = map (\<lambda>i. slot_addr s leaf l i) [0..<Z s]"
      by (intro map_cong) simp_all
    then show ?thesis unfolding b by (simp add: slot_addr_def)
  qed
  then show ?thesis unfolding path_slots_def path_list_def
    by (intro arg_cong [where f = concat] map_cong) simp_all
qed

lemma record_calls_keeps: "L b \<noteq> None \<Longrightarrow> record_calls calls L b \<noteq> None"
proof (induction calls arbitrary: L)
  case Nil
  then show ?case by (simp add: record_calls_def)
next
  case (Cons c calls)
  have ra: "record_calls (c # calls) L = record_calls calls (record_call (fst c) L)"
    by (simp add: record_calls_def)
  have "record_call (fst c) L b \<noteq> None" using Cons.prems by (cases "fst c") simp_all
  then show ?case unfolding ra by (rule Cons.IH)
qed

lemma record_calls_put:
  "(PutBlock b d, ld, dr) \<in> set calls \<Longrightarrow> record_calls calls L b \<noteq> None"
proof (induction calls arbitrary: L)
  case Nil
  then show ?case by simp
next
  case (Cons c calls)
  have ra: "record_calls (c # calls) L = record_calls calls (record_call (fst c) L)"
    by (simp add: record_calls_def)
  show ?case
  proof (cases "c = (PutBlock b d, ld, dr)")
    case True
    then have "record_call (fst c) L b \<noteq> None" by simp
    then show ?thesis unfolding ra by (rule record_calls_keeps)
  next
    case False
    with Cons.prems have "(PutBlock b d, ld, dr) \<in> set calls" by simp
    then show ?thesis unfolding ra by (rule Cons.IH)
  qed
qed

lemma access_at_height_32:
  assumes "height s = 32" "Z s = 1" "st_capacity s = 2 ^ 32" "pmap s b = 0"
  shows "access read b data 0 draw s =
           (Inl (StorageException 8589934591), s\<lparr>pmap := (pmap s)(b := 0)\<rparr>)"
proof -
  let ?sa = "s\<lparr>pmap := (pmap s)(b := 0)\<rparr>"
  have e1: "mapGet b s = (Inr 0, s)" using assms(4) by (simp add: mapGet_def)
  have e2: "randomLeaf 0 s = (Inr 0, s)"
    by (simp add: randomLeaf_def assms(1) act_defs int_defs getRandomULong_def)
  have e3: "mapSet b 0 s = (Inr (), ?sa)" by (simp add: mapSet_def)
  have b: "bucketForLevelLeaf 32 0 0 = Some 8589934591"
    by (simp add: bucketForLevelLeaf_def int_defs)
  have l: "[0..<32] = 0 # [Suc 0..<32]" by (rule upt_conv_Cons) simp
  have e4: "readPath 0 ?sa = (Inl (StorageException 8589934591), ?sa)"
    by (simp add: readPath_def assms(1,2,3) l b upt_small act_defs wrap_def)
  show ?thesis
    unfolding access_def
    by (simp only: bind_ok [of "mapGet b" s, OF e1] bind_ok [of "randomLeaf 0" s, OF e2]
        bind_ok [of "mapSet b 0" s, OF e3] bind_err [of "readPath 0" ?sa, OF e4])
qed

subsection \<open>C1: a block that was put is got back\<close>

text \<open>
  C1, as stated, takes every ORAM.  \<^verbatim>\<open>ORAM(32, 12, 1, ...)\<close> on a storage adapter with the
  \<open>2^32\<close> blocks it asks for is constructed, and \<^verbatim>\<open>put(0, {1, 2, 3, 4})\<close> throws: at height 32
  the \<^verbatim>\<open>int\<close> \<^verbatim>\<open>1 << (height - 1)\<close> is \<open>- 2^31\<close>, the root of the path of leaf 0 comes out
  as bucket 8589934591, and the storage adapter refuses the address.  The \<^verbatim>\<open>get(0)\<close>
  that follows throws in the same way.
\<close>

theorem put_then_get_counterexample:
  "fst (ORAM 32 12 1 (2 ^ 32) 4 (\<lambda>_. (0, [])) (\<lambda>_. 0) [] (\<lambda>_ _. 0) (\<lambda>_. 0)) = Inr () \<and>
   fst (oram_put 0 [1, 2, 3, 4] 0 (\<lambda>_ _. 0)
          (snd (ORAM 32 12 1 (2 ^ 32) 4 (\<lambda>_. (0, [])) (\<lambda>_. 0) [] (\<lambda>_ _. 0) (\<lambda>_. 0))))
     = Inl (StorageException 8589934591) \<and>
   fst (oram_get 0 0 (\<lambda>_ _. 0)
          (snd (oram_put 0 [1, 2, 3, 4] 0 (\<lambda>_ _. 0)
             (snd (ORAM 32 12 1 (2 ^ 32) 4 (\<lambda>_. (0, [])) (\<lambda>_. 0) [] (\<lambda>_ _. 0) (\<lambda>_. 0))))))
     = Inl (StorageException 8589934591)"
proof -
  have sh: "shl_int_1 (ulong_minus 32 1) = Some (- (2 ^ 31))" by (simp add: int_defs)
  have "\<exists>s. ORAM 32 12 1 (2 ^ 32) 4 (\<lambda>_. (0, [])) (\<lambda>_. 0) [] (\<lambda>_ _. 0) (\<lambda>_. 0) = (Inr (), s) \<and>
             height s = 32 \<and> Z s = 1 \<and> dataSize s = 12 - 8 \<and> blocks s = 2 ^ 32 * 1 \<and>
             st_capacity s = 2 ^ 32 \<and> st_payload s = 4 \<and> stash s = [] \<and>
             (\<forall>a < 2 ^ 32 * 1. fst (st_mem s a) = ULONG_MAX) \<and>
             (\<forall>i < 2 ^ 32 * 1. pmap s i = getRandomULong (of_int_ulong (- (2 ^ 31))) 0)"
    by (rule ORAM_constructed [OF _ _ _ _ _ _ sh]) simp_all
  then obtain s
    where run: "ORAM 32 12 1 (2 ^ 32) 4 (\<lambda>_. (0, [])) (\<lambda>_. 0) [] (\<lambda>_ _. 0) (\<lambda>_. 0) = (Inr (), s)"
      and f: "height s = 32" "Z s = 1" "st_capacity s = 2 ^ 32"
      and leaves: "\<forall>i < 2 ^ 32 * 1. pmap s i = getRandomULong (of_int_ulong (- (2 ^ 31))) 0"
    by blast
  have "(0::nat) < 2 ^ 32 * 1" by simp
  with leaves have "pmap s 0 = getRandomULong (of_int_ulong (- (2 ^ 31))) 0" by blast
  then have p0: "pmap s 0 = 0" by (simp add: getRandomULong_def)
  let ?s' = "s\<lparr>pmap := (pmap s)(0 := 0)\<rparr>"
  have put: "oram_put 0 [1, 2, 3, 4] 0 (\<lambda>_ _. 0) s = (Inl (StorageException 8589934591), ?s')"
    unfolding oram_put_def
    by (rule bind_err) (rule access_at_height_32 [OF f p0])
  have get: "oram_get 0 0 (\<lambda>_ _. 0) ?s' =
               (Inl (StorageException 8589934591), ?s'\<lparr>pmap := (pmap ?s')(0 := 0)\<rparr>)"
    unfolding oram_get_def by (rule access_at_height_32) (simp_all add: f)
  show ?thesis unfolding run snd_conv put get fst_conv by simp
qed

text \<open>
  C1, amended: take an ORAM of height \<open>H \<ge> 1\<close> with \<open>Z \<ge> 1\<close> slots per bucket and at most
  \<open>2^31\<close> blocks (\<open>2^H * Z \<le> 2^31\<close>), constructed with a block size of at least 8 on a
  storage adapter that has room for the \<open>2^H * Z\<close> blocks, payloads of
  \<open>blockSize - wordSize\<close> bytes, and an empty stash.  After any calls of \<^verbatim>\<open>get\<close> and \<^verbatim>\<open>put\<close> on
  ids below \<open>2^H * Z\<close> with payloads of that size, \<^verbatim>\<open>put(b, d)\<close> for such an id and payload
  returns, and after any further such calls on other ids \<^verbatim>\<open>get(b)\<close> returns \<open>d\<close>, whatever
  the random draws are.  (A \<^verbatim>\<open>get\<close> of an id that was never put throws and the caller goes
  on.)
\<close>

theorem put_then_get:
  assumes "1 \<le> H" and "1 \<le> Zc" and "2 ^ H * Zc \<le> 2 ^ 31" and "2 ^ H * Zc \<le> capacity"
    and "8 \<le> blockSize" and "blockSize < 2 ^ 64" and "payload = blockSize - 8"
    and "\<forall>c \<in> set before. valid_call (2 ^ H * Zc) (blockSize - 8) (fst c)"
    and "\<forall>c \<in> set between. valid_call (2 ^ H * Zc) (blockSize - 8) (fst c) \<and> call_block (fst c) \<noteq> b"
    and "b < 2 ^ H * Zc" and "length d = blockSize - 8"
  shows
    "fst (ORAM H blockSize Zc capacity payload mem0 map0 [] draw leafDraw) = Inr () \<and>
     fst (oram_put b d ld0 draw0
            (perform_all before
               (snd (ORAM H blockSize Zc capacity payload mem0 map0 [] draw leafDraw)))) = Inr () \<and>
     fst (oram_get b ld1 draw1
            (perform_all between
               (snd (oram_put b d ld0 draw0
                  (perform_all before
                     (snd (ORAM H blockSize Zc capacity payload mem0 map0 [] draw leafDraw)))))))
       = Inr d"
proof -
  from ORAM_inv [OF assms(1-7), of mem0 map0 draw leafDraw]
  obtain s0 where run: "ORAM H blockSize Zc capacity payload mem0 map0 [] draw leafDraw = (Inr (), s0)"
    and inv0: "oram_inv s0 Map.empty" and f0: "blocks s0 = 2 ^ H * Zc" "dataSize s0 = blockSize - 8"
    by blast
  \<comment> \<open>the calls before\<close>
  let ?s1 = "perform_all before s0"
  let ?L1 = "record_calls before Map.empty"
  have "\<forall>c \<in> set before. valid_call (blocks s0) (dataSize s0) (fst c)"
    using assms(8) by (simp add: f0)
  note one = perform_all_inv [OF inv0 this]
  note inv1 = one [THEN conjunct1]
  have f1: "blocks ?s1 = 2 ^ H * Zc" "dataSize ?s1 = blockSize - 8"
    using one f0 by simp_all
  \<comment> \<open>the put\<close>
  have b1: "b < blocks ?s1" using assms(10) by (simp add: f1)
  have len1: "False \<or> length d = dataSize ?s1" using assms(11) by (simp add: f1)
  from access_inv [OF inv1 b1 len1, of ld0 draw0]
  obtain s2 d' where fr2: "s2 = ?s1\<lparr>st_mem := st_mem s2, pmap := pmap s2, stash := stash s2\<rparr>"
    and acc: "access False b d ld0 draw0 ?s1 = (Inr d', s2)"
    and inv2: "oram_inv s2 (?L1(b \<mapsto> d))"
    by auto
  have put: "oram_put b d ld0 draw0 ?s1 = (Inr (), s2)"
    using acc by (simp add: oram_put_def bind_def ret_def)
  have f2: "blocks s2 = 2 ^ H * Zc" "dataSize s2 = blockSize - 8"
    by (subst fr2, simp add: f1)+
  \<comment> \<open>the calls between\<close>
  let ?s3 = "perform_all between s2"
  let ?L3 = "record_calls between (?L1(b \<mapsto> d))"
  have "\<forall>c \<in> set between. valid_call (blocks s2) (dataSize s2) (fst c)"
    using assms(9) by (simp add: f2)
  note two = perform_all_inv [OF inv2 this]
  note inv3 = two [THEN conjunct1]
  have f3: "blocks ?s3 = 2 ^ H * Zc" using two f2 by simp
  have "\<forall>c \<in> set between. call_block (fst c) \<noteq> b" using assms(9) by simp
  then have "?L3 b = (?L1(b \<mapsto> d)) b" by (rule record_calls_other)
  then have L3: "?L3 b = Some d" by simp
  \<comment> \<open>the get\<close>
  have b3: "b < blocks ?s3" using assms(10) by (simp add: f3)
  from access_inv [OF inv3 b3, of True "[]" ld1 draw1] L3
  obtain s4 where "access True b [] ld1 draw1 ?s3 = (Inr d, s4)"
    by auto
  then have get: "oram_get b ld1 draw1 ?s3 = (Inr d, s4)" by (simp add: oram_get_def)
  show ?thesis unfolding run snd_conv put get fst_conv by simp
qed

theorem put_then_get_witness:
  "fst (ORAM 1 12 1 2 4 (\<lambda>_. (0, [])) (\<lambda>_. 5) [] (\<lambda>_ _. 0) (\<lambda>_. 0)) = Inr () \<and>
   fst (oram_put 1 [1, 2, 3, 4] 0 (\<lambda>_ _. 0)
          (perform_all [(PutBlock 0 [5, 6, 7, 8], 0, \<lambda>_ _. 0)]
             (snd (ORAM 1 12 1 2 4 (\<lambda>_. (0, [])) (\<lambda>_. 5) [] (\<lambda>_ _. 0) (\<lambda>_. 0))))) = Inr () \<and>
   fst (oram_get 1 0 (\<lambda>_ _. 0)
          (perform_all [(GetBlock 0, 0, \<lambda>_ _. 0), (PutBlock 0 [9, 9, 9, 9], 0, \<lambda>_ _. 0)]
             (snd (oram_put 1 [1, 2, 3, 4] 0 (\<lambda>_ _. 0)
                (perform_all [(PutBlock 0 [5, 6, 7, 8], 0, \<lambda>_ _. 0)]
                   (snd (ORAM 1 12 1 2 4 (\<lambda>_. (0, [])) (\<lambda>_. 5) [] (\<lambda>_ _. 0) (\<lambda>_. 0))))))))
     = Inr [1, 2, 3, 4]"
  using put_then_get [where H = 1 and Zc = 1 and capacity = 2 and blockSize = 12 and payload = 4
      and before = "[(PutBlock 0 [5, 6, 7, 8], 0, \<lambda>_ _. 0)]"
      and between = "[(GetBlock 0, 0, \<lambda>_ _. 0), (PutBlock 0 [9, 9, 9, 9], 0, \<lambda>_ _. 0)]"
      and b = 1 and d = "[1, 2, 3, 4]" and ?mem0.0 = "\<lambda>_. (0, [])" and ?map0.0 = "\<lambda>_. 5"
      and draw = "\<lambda>_ _. 0" and leafDraw = "\<lambda>_. 0" and ?ld0.0 = 0 and ?draw0.0 = "\<lambda>_ _. 0"
      and ?ld1.0 = 0 and ?draw1.0 = "\<lambda>_ _. 0"]
  by simp

subsection \<open>C3: where a written block is\<close>

text \<open>
  C3, as stated, has every written block in a bucket of its path.  On the small ORAM
  (one slot per bucket, height 1, so one slot per path) \<^verbatim>\<open>put(1, ...)\<close> and \<^verbatim>\<open>put(0, ...)\<close> both
  map to leaf 0; block 1 takes the slot, and block 0, which has been written, is in no
  bucket of its path: \<^verbatim>\<open>writePath\<close> left it in the stash.
\<close>

theorem path_invariant_counterexample:
  "ORAM 1 12 1 2 4 (\<lambda>_. (0, [])) (\<lambda>_. 5) [] (\<lambda>_ _. 0) (\<lambda>_. 0) = (Inr (), tiny0) \<and>
   perform_all [(PutBlock 1 [1, 2, 3, 4], 0, \<lambda>_ _. 0), (PutBlock 0 [5, 6, 7, 8], 0, \<lambda>_ _. 0)] tiny0
     = tiny2 \<and>
   \<not> on_path tiny2 0 \<and> stash tiny2 = [(0, [5, 6, 7, 8])] \<and> in_stash tiny2 0"
proof (intro conjI)
  show "perform_all [(PutBlock 1 [1, 2, 3, 4], 0, \<lambda>_ _. 0), (PutBlock 0 [5, 6, 7, 8], 0, \<lambda>_ _. 0)]
          tiny0 = tiny2"
    by (simp only: perform_all_def foldl.simps perform.simps tiny1_put tiny2_put snd_conv)
  show "\<not> on_path tiny2 0"
    by (simp add: on_path_def path_slots_def int_defs upt_small tiny0_def tiny1_def tiny2_def)
  show "stash tiny2 = [(0, [5, 6, 7, 8])]" by (simp add: tiny2_def)
  show "in_stash tiny2 0" by (simp add: in_stash_def tiny2_def)
qed (rule tiny0_constructed)

text \<open>
  C3, amended: take an ORAM of height \<open>H \<ge> 1\<close> with \<open>Z \<ge> 1\<close> slots per bucket and at most
  \<open>2^31\<close> blocks, constructed with a block size of at least 8 on a storage adapter that has
  room for the \<open>2^H * Z\<close> blocks, payloads of \<open>blockSize - wordSize\<close> bytes, and an empty
  stash.  After any calls of \<^verbatim>\<open>get\<close> and \<^verbatim>\<open>put\<close> on ids below \<open>2^H * Z\<close> with payloads of that
  size, every block \<open>b\<close> that has been put is in the stash or in a slot of the path from
  the root to the leaf the position map gives for \<open>b\<close>, and it is there with the payload
  that was put last.
\<close>

theorem written_block_in_stash_or_on_path:
  assumes "1 \<le> H" and "1 \<le> Zc" and "2 ^ H * Zc \<le> 2 ^ 31" and "2 ^ H * Zc \<le> capacity"
    and "8 \<le> blockSize" and "blockSize < 2 ^ 64" and "payload = blockSize - 8"
    and "\<forall>c \<in> set calls. valid_call (2 ^ H * Zc) (blockSize - 8) (fst c)"
    and "(PutBlock b d, ld, dr) \<in> set calls"
  shows
    "(in_stash (perform_all calls
                 (snd (ORAM H blockSize Zc capacity payload mem0 map0 [] draw leafDraw))) b \<or>
      on_path (perform_all calls
                 (snd (ORAM H blockSize Zc capacity payload mem0 map0 [] draw leafDraw))) b) \<and>
     (\<exists>d'. record_calls calls Map.empty b = Some d' \<and>
        ((b, d') \<in> set (stash (perform_all calls
                 (snd (ORAM H blockSize Zc capacity payload mem0 map0 [] draw leafDraw)))) \<or>
         (b, d') \<in> st_mem (perform_all calls
                 (snd (ORAM H blockSize Zc capacity payload mem0 map0 [] draw leafDraw))) `
           set (path_slots (perform_all calls
                 (snd (ORAM H blockSize Zc capacity payload mem0 map0 [] draw leafDraw)))
                 (pmap (perform_all calls
                 (snd (ORAM H blockSize Zc capacity payload mem0 map0 [] draw leafDraw))) b))))"
proof -
  from ORAM_inv [OF assms(1-7), of mem0 map0 draw leafDraw]
  obtain s0 where run: "ORAM H blockSize Zc capacity payload mem0 map0 [] draw leafDraw = (Inr (), s0)"
    and inv0: "oram_inv s0 Map.empty" and f0: "blocks s0 = 2 ^ H * Zc" "dataSize s0 = blockSize - 8"
    by blast
  let ?s = "perform_all calls s0"
  let ?L = "record_calls calls Map.empty"
  have "\<forall>c \<in> set calls. valid_call (blocks s0) (dataSize s0) (fst c)"
    using assms(8) by (simp add: f0)
  from perform_all_inv [OF inv0 this] have inv: "oram_inv ?s ?L" by blast
  from inv have par: "params_ok ?s"
    and rng: "\<forall>b < blocks ?s. pmap ?s b < 2 ^ (height ?s - 1)"
    and cov: "\<forall>b d. ?L b = Some d \<longrightarrow>
        b < blocks ?s \<and> length d = dataSize ?s \<and>
        (map_of (stash ?s) b = Some d \<or> (\<exists>a \<in> path_set ?s (pmap ?s b). st_mem ?s a = (b, d)))"
    unfolding oram_inv_def by blast+
  from record_calls_put [OF assms(9)] obtain d' where L: "?L b = Some d'" by blast
  with cov have b: "b < blocks ?s"
    and w: "map_of (stash ?s) b = Some d' \<or> (\<exists>a \<in> path_set ?s (pmap ?s b). st_mem ?s a = (b, d'))"
    by blast+
  from rng b have "pmap ?s b < 2 ^ (height ?s - 1)" by blast
  with par have ps: "set (path_slots ?s (pmap ?s b)) = path_set ?s (pmap ?s b)"
    by (simp add: path_slots_eq set_path_list)
  from w have w': "(b, d') \<in> set (stash ?s) \<or> (b, d') \<in> st_mem ?s ` set (path_slots ?s (pmap ?s b))"
  proof
    assume "map_of (stash ?s) b = Some d'"
    then have "(b, d') \<in> set (stash ?s)" by (rule map_of_SomeD)
    then show ?thesis ..
  next
    assume "\<exists>a \<in> path_set ?s (pmap ?s b). st_mem ?s a = (b, d')"
    then obtain a where "a \<in> path_set ?s (pmap ?s b)" "st_mem ?s a = (b, d')" by blast
    then have "(b, d') \<in> st_mem ?s ` set (path_slots ?s (pmap ?s b))"
      unfolding ps by (metis imageI)
    then show ?thesis ..
  qed
  then have "in_stash ?s b \<or> on_path ?s b"
  proof
    assume "(b, d') \<in> set (stash ?s)"
    then have "fst (b, d') \<in> fst ` set (stash ?s)" by (rule imageI)
    then show ?thesis by (simp add: in_stash_def)
  next
    assume "(b, d') \<in> st_mem ?s ` set (path_slots ?s (pmap ?s b))"
    then obtain a where "a \<in> set (path_slots ?s (pmap ?s b))" "st_mem ?s a = (b, d')" by auto
    then have "\<exists>a \<in> set (path_slots ?s (pmap ?s b)). fst (st_mem ?s a) = b" by force
    then show ?thesis by (simp add: on_path_def)
  qed
  with L w' show ?thesis unfolding run snd_conv by blast
qed

theorem written_block_in_stash_or_on_path_witness:
  "(in_stash (perform_all
        [(PutBlock 1 [1, 2, 3, 4], 0, \<lambda>_ _. 0), (PutBlock 0 [5, 6, 7, 8], 0, \<lambda>_ _. 0)]
        (snd (ORAM 1 12 1 2 4 (\<lambda>_. (0, [])) (\<lambda>_. 5) [] (\<lambda>_ _. 0) (\<lambda>_. 0)))) 0 \<or>
    on_path (perform_all
        [(PutBlock 1 [1, 2, 3, 4], 0, \<lambda>_ _. 0), (PutBlock 0 [5, 6, 7, 8], 0, \<lambda>_ _. 0)]
        (snd (ORAM 1 12 1 2 4 (\<lambda>_. (0, [])) (\<lambda>_. 5) [] (\<lambda>_ _. 0) (\<lambda>_. 0)))) 0)"
  using written_block_in_stash_or_on_path [where H = 1 and Zc = 1 and capacity = 2
      and blockSize = 12 and payload = 4
      and calls = "[(PutBlock 1 [1, 2, 3, 4], 0, \<lambda>_ _. 0), (PutBlock 0 [5, 6, 7, 8], 0, \<lambda>_ _. 0)]"
      and b = 0 and d = "[5, 6, 7, 8]" and ld = 0 and dr = "\<lambda>_ _. 0"
      and ?mem0.0 = "\<lambda>_. (0, [])" and ?map0.0 = "\<lambda>_. 5"
      and draw = "\<lambda>_ _. 0" and leafDraw = "\<lambda>_. 0"]
  by simp

end
